theory Spec2Isabelle
  imports Complex_Main
begin

section \<open>Python numerics used by the simulators\<close>

text \<open>
  The scripts compute with Python \<open>int\<close> (unbounded, modelled as \<open>int\<close>) and
  \<open>float\<close>. Float products such as \<open>0.15 * L\<close> are modelled by the exact rational
  product: for the lengths and durations that occur the double product lies within a unit
  in the last place of the exact value, and on an exact tie \<open>k + 1/2\<close> the double
  product is the tie itself, so \<open>round\<close> and \<open>int\<close> see the same number.
\<close>

text \<open>Python 3 \<open>round(x)\<close> on a float: nearest integer, ties to the even one.\<close>

definition py_round :: "rat \<Rightarrow> int" where
  "py_round x =
     (let f = \<lfloor>x\<rfloor>; d = x - of_int f
      in if d < 1 / 2 then f
         else if 1 / 2 < d then f + 1
         else if even f then f else f + 1)"

text \<open>Python \<open>int(x)\<close> on a float: truncation towards zero.\<close>

definition py_int :: "rat \<Rightarrow> int" where
  "py_int x = (if 0 \<le> x then \<lfloor>x\<rfloor> else \<lceil>x\<rceil>)"

section \<open>Stage 2: tier partition (\<open>stage2_full_rules.py\<close>)\<close>

text \<open>
  \<open>partition_counts(L)\<close>: the three assignments, the shift from tier 2 to tier 3 when
  \<open>n3 < 4\<close>, and the fallback when \<open>n3 < 0\<close>.
\<close>

definition partition_counts :: "int \<Rightarrow> int \<times> int \<times> int" where
  "partition_counts L =
     (let n1 = max 1 (py_round (15 / 100 * of_int L));
          n2 = max 3 (py_round (40 / 100 * of_int L));
          n3 = L - n1 - n2;
          take = (if n3 < 4 then min (4 - n3) (n2 - 3) else 0);
          n2 = n2 - take;
          n3 = n3 + take
      in if n3 < 0
         then (let n1 = max 1 (py_int (of_int L * (15 / 100)));
                   n2 = max 3 (py_int (of_int L * (40 / 100)));
                   n3 = L - n1 - n2
               in (n1, n2, n3))
         else (n1, n2, n3))"

subsection \<open>Base timings, tiers and per-junction timing tables\<close>

datatype py_error = IndexError | KeyError | ValueError | SystemExit

definition TICKS_PER_SEC :: int where
  "TICKS_PER_SEC = 10"

definition CYCLE_SECONDS :: rat where
  "CYCLE_SECONDS = 10"

text \<open>\<open>PHASE_PROPS\<close>: green, yellow, red proportions of one cycle.\<close>

definition PHASE_PROPS :: "rat \<times> rat \<times> rat" where
  "PHASE_PROPS = (6 / 10, 1 / 10, 3 / 10)"

definition G_T :: int where
  "G_T = py_int (CYCLE_SECONDS * of_int TICKS_PER_SEC * fst PHASE_PROPS)"

definition Y_T :: int where
  "Y_T = py_int (CYCLE_SECONDS * of_int TICKS_PER_SEC * fst (snd PHASE_PROPS))"

definition R_T :: int where
  "R_T = py_int (CYCLE_SECONDS * of_int TICKS_PER_SEC * snd (snd PHASE_PROPS))"

text \<open>The dictionaries \<open>{'G': .., 'Y': .., 'R': ..}\<close> of phase durations.\<close>

record timings =
  G :: int
  Y :: int
  R :: int

datatype tier = tier1 | tier2 | tier3

text \<open>The tier of route position \<open>i\<close> (the \<open>if/elif/else\<close> of the tier loop).\<close>

definition tier_of :: "int \<Rightarrow> int \<Rightarrow> nat \<Rightarrow> tier" where
  "tier_of n1 n2 i =
     (if int i < n1 then tier1 else if int i < n1 + n2 then tier2 else tier3)"

text \<open>
  \<open>tiers\<close> is a dictionary keyed by junction: a junction that occurs twice on the route
  keeps the tier of its last occurrence.
\<close>

definition assign_tiers :: "nat list \<Rightarrow> int \<Rightarrow> int \<Rightarrow> (nat \<rightharpoonup> tier)" where
  "assign_tiers path_nodes n1 n2 =
     fold (\<lambda>(i, ni) tiers. tiers(ni \<mapsto> tier_of n1 n2 i)) (enumerate 0 path_nodes) Map.empty"

text \<open>
  One pass of the modifier loop for a junction of the given tier, on its entries of
  \<open>selected_timings\<close> and \<open>others_timings\<close>.
\<close>

definition modify_timings :: "tier \<Rightarrow> timings \<times> timings \<Rightarrow> timings \<times> timings" where
  "modify_timings t st =
     (case st of (sel, oth) \<Rightarrow>
        (case t of
           tier1 \<Rightarrow>
             (sel\<lparr>G := max 1 (py_int (of_int G_T * 2)),
                  R := max 1 (py_int (of_int R_T * (25 / 100)))\<rparr>,
              oth\<lparr>G := 0\<rparr>)
         | tier2 \<Rightarrow>
             (sel\<lparr>G := max 1 (py_int (of_int G_T * (15 / 10))),
                  R := max 1 (py_int (of_int R_T * (5 / 10)))\<rparr>,
              oth\<lparr>G := max 0 (py_int (of_int G_T * (5 / 10)))\<rparr>)
         | tier3 \<Rightarrow>
             (sel\<lparr>G := G_T, R := max 1 (py_int (of_int R_T * (6 / 10)))\<rparr>,
              oth\<lparr>G := G_T\<rparr>)))"

text \<open>
  The timing tables are dictionaries keyed by \<open>range(N)\<close>, modelled as lists of length
  \<open>N\<close>; a route junction outside the range is a \<open>KeyError\<close>.
\<close>

fun apply_tier_modifiers ::
  "(nat \<rightharpoonup> tier) \<Rightarrow> nat list \<Rightarrow> timings list \<times> timings list
     \<Rightarrow> py_error + (timings list \<times> timings list)" where
  "apply_tier_modifiers tiers [] st = Inr st"
| "apply_tier_modifiers tiers (ni # rest) (selected_timings, others_timings) =
     (case tiers ni of
        None \<Rightarrow> Inl KeyError
      | Some t \<Rightarrow>
          if ni < length selected_timings \<and> ni < length others_timings
          then (case modify_timings t (selected_timings ! ni, others_timings ! ni) of
                  (sel, oth) \<Rightarrow>
                    apply_tier_modifiers tiers rest
                      (selected_timings[ni := sel], others_timings[ni := oth]))
          else Inl KeyError)"

text \<open>A signal entry \<open>[state, timer]\<close> with state 0 = RED, 1 = GREEN, 2 = YELLOW.\<close>

type_synonym light = "int \<times> int"

text \<open>Immediate preemption: \<open>for idx in path_nodes[:n1]\<close>.\<close>

fun preempt_first ::
  "timings list \<Rightarrow> nat list \<Rightarrow> light list \<Rightarrow> py_error + light list" where
  "preempt_first selected_timings [] sim = Inr sim"
| "preempt_first selected_timings (idx # rest) sim =
     (if idx < length selected_timings \<and> idx < length sim
      then preempt_first selected_timings rest (sim[idx := (1, G (selected_timings ! idx))])
      else Inl KeyError)"

record stage2_tables =
  n123 :: "int \<times> int \<times> int"
  selected_timings :: "timings list"
  others_timings :: "timings list"
  sim_selected_state :: "light list"
  sim_others_state :: "light list"

text \<open>
  The script from \<open>L = len(path_nodes)\<close> to the immediate preemption, for \<open>N\<close>
  junctions and the route \<open>path_nodes\<close>.
\<close>

definition stage2_setup :: "nat \<Rightarrow> nat list \<Rightarrow> py_error + stage2_tables" where
  "stage2_setup N path_nodes =
     (let L = int (length path_nodes) in
      if L = 0 then Inl SystemExit
      else
        (case partition_counts L of (n1, n2, n3) \<Rightarrow>
           let tiers = assign_tiers path_nodes n1 n2;
               base = replicate N \<lparr>G = G_T, Y = Y_T, R = R_T\<rparr>
           in (case apply_tier_modifiers tiers path_nodes (base, base) of
                 Inl e \<Rightarrow> Inl e
               | Inr (sel, oth) \<Rightarrow>
                   let sim_sel = map (\<lambda>t. (0, R t)) sel;
                       sim_oth = map (\<lambda>t. (0, R t)) oth
                   in (case preempt_first sel (take (nat n1) path_nodes) sim_sel of
                         Inl e \<Rightarrow> Inl e
                       | Inr sim_sel' \<Rightarrow>
                           Inr \<lparr>n123 = (n1, n2, n3),
                                selected_timings = sel,
                                others_timings = oth,
                                sim_selected_state = sim_sel',
                                sim_others_state = sim_oth\<rparr>))))"

text \<open>
  The partition rule as the design document words it: the two rounded shares with their
  minima, the remainder, and the transfer of up to \<open>4 - n3\<close> junctions from tier 2 to
  tier 3 that never takes tier 2 below 3. It has no fallback branch.
\<close>

definition spec_tier_rule :: "int \<Rightarrow> int \<times> int \<times> int" where
  "spec_tier_rule L =
     (let n1 = max 1 (py_round (15 / 100 * of_int L));
          n2 = max 3 (py_round (40 / 100 * of_int L));
          n3 = L - n1 - n2;
          transfer = (if n3 < 4 then min (4 - n3) (n2 - 3) else 0)
      in (n1, n2 - transfer, n3 + transfer))"

section \<open>Signal cycles\<close>

subsection \<open>Lights of \<open>generate_lights_and_ambulance.py\<close>\<close>

definition GREEN_LEN :: int where
  "GREEN_LEN = 120"

definition YELLOW_LEN :: int where
  "YELLOW_LEN = 30"

definition RED_LEN :: int where
  "RED_LEN = 150"

text \<open>
  The body of the loop \<open>for (state, timer) in lights\<close> that closes every frame: at
  \<open>timer <= 1\<close> the state advances and the timer is reloaded, otherwise the timer
  counts down.
\<close>

definition advance_light :: "light \<Rightarrow> light" where
  "advance_light l =
     (case l of (state, timer) \<Rightarrow>
        if timer \<le> 1
        then (if state = 0 then (1, GREEN_LEN)
              else if state = 1 then (2, YELLOW_LEN)
              else (0, RED_LEN))
        else (state, timer - 1))"

text \<open>\<open>new_lights\<close> of one frame.\<close>

definition advance_lights :: "light list \<Rightarrow> light list" where
  "advance_lights lights = map advance_light lights"

subsection \<open>Junctions of \<open>stage0_traffic_heat.py\<close>\<close>

definition DEPART_WHEN_GREEN :: int where
  "DEPART_WHEN_GREEN = 2"

text \<open>
  One junction in one tick of the simulation loop. The draw
  \<open>random.random() < ARRIVAL_LAMBDA\<close> is the input \<open>arrival\<close>. The phase durations
  \<open>G_T\<close>, \<open>Y_T\<close>, \<open>R_T\<close> are computed as in stage 2, from the same constants.
\<close>

definition arrive :: "bool \<Rightarrow> int \<Rightarrow> int" where
  "arrive arrival c = (if arrival then c + 1 else c)"

definition depart :: "int \<Rightarrow> int \<Rightarrow> int" where
  "depart st c = (if st = 1 \<and> c > 0 then c - min c DEPART_WHEN_GREEN else c)"

definition light_tick :: "light \<Rightarrow> light" where
  "light_tick l =
     (case l of (st, timer) \<Rightarrow>
        let timer = timer - 1 in
        if timer \<le> 0
        then (if st = 1 then (2, Y_T)
              else if st = 2 then (0, R_T)
              else (1, G_T))
        else (st, timer))"

definition junction_tick :: "bool \<Rightarrow> light \<times> int \<Rightarrow> light \<times> int" where
  "junction_tick arrival lc =
     (case lc of (l, c) \<Rightarrow> (light_tick l, depart (fst l) (arrive arrival c)))"

text \<open>
  One tick over the \<open>K\<close> active junctions (\<open>lights\<close> and \<open>counts\<close> both have length
  \<open>K\<close>, paired here), and the whole loop over the ticks; \<open>arrivals\<close> gives the draws
  of a tick by junction.
\<close>

definition stage0_tick :: "(nat \<Rightarrow> bool) \<Rightarrow> (light \<times> int) list \<Rightarrow> (light \<times> int) list" where
  "stage0_tick arrivals js = map (\<lambda>(idx, lc). junction_tick (arrivals idx) lc) (enumerate 0 js)"

fun stage0_run :: "(nat \<Rightarrow> bool) list \<Rightarrow> (light \<times> int) list \<Rightarrow> (light \<times> int) list" where
  "stage0_run [] js = js"
| "stage0_run (arrivals # rest) js = stage0_run rest (stage0_tick arrivals js)"

subsection \<open>The cycle as the design document states it\<close>

text \<open>The three phases, by their codes, and the successor of a phase in the cycle.\<close>

definition RED :: int where "RED = 0"
definition GREEN :: int where "GREEN = 1"
definition YELLOW :: int where "YELLOW = 2"

definition cycle_next :: "int \<Rightarrow> int" where
  "cycle_next ph = (if ph = RED then GREEN else if ph = GREEN then YELLOW else RED)"

definition valid_light :: "light \<Rightarrow> bool" where
  "valid_light l = (fst l \<in> {RED, GREEN, YELLOW} \<and> 0 \<le> snd l)"

text \<open>
  The reading "a phase transition occurs in a tick only if the timer was 0 at the start of
  that tick", for a tick function \<open>step\<close> and the entry \<open>l\<close> at the start of the tick.
\<close>

definition transition_only_at_zero :: "(light \<Rightarrow> light) \<Rightarrow> light \<Rightarrow> bool" where
  "transition_only_at_zero step l = (fst (step l) \<noteq> fst l \<longrightarrow> snd l = 0)"

section \<open>Congestion-aware shortest path (\<open>replanner.py\<close>)\<close>

text \<open>
  Junction indices are naturals. \<open>adj\<close> is the dictionary from a junction to its list
  of \<open>(neighbour, weight)\<close> pairs; \<open>adj.get(u, [])\<close> is \<open>adj_get\<close>. Floats are
  modelled as reals, \<open>math.inf\<close> in \<open>dist\<close> as \<open>None\<close>, and the sentinel \<open>-1\<close> in
  \<open>prev\<close> as \<open>None\<close>.
\<close>

type_synonym graph = "nat \<rightharpoonup> (nat \<times> real) list"

definition adj_get :: "graph \<Rightarrow> nat \<Rightarrow> (nat \<times> real) list" where
  "adj_get adj u = (case adj u of None \<Rightarrow> [] | Some es \<Rightarrow> es)"

subsection \<open>The priority queue\<close>

text \<open>
  \<open>heapq\<close> holds tuples \<open>(d, u)\<close> and pops a least one in Python's tuple order. The
  heap is modelled by the list of its entries; which of two equal tuples is popped cannot
  be observed.
\<close>

definition tuple_less :: "real \<times> nat \<Rightarrow> real \<times> nat \<Rightarrow> bool" where
  "tuple_less a b = (fst a < fst b \<or> (fst a = fst b \<and> snd a < snd b))"

fun heap_min :: "real \<times> nat \<Rightarrow> (real \<times> nat) list \<Rightarrow> real \<times> nat" where
  "heap_min m [] = m"
| "heap_min m (x # xs) = heap_min (if tuple_less x m then x else m) xs"

definition heappush :: "(real \<times> nat) list \<Rightarrow> real \<times> nat \<Rightarrow> (real \<times> nat) list" where
  "heappush h x = x # h"

text \<open>\<open>heappop\<close> on a non-empty heap (the loop pops only under \<open>while pq\<close>).\<close>

definition heappop :: "(real \<times> nat) list \<Rightarrow> (real \<times> nat) \<times> (real \<times> nat) list" where
  "heappop h = (let m = heap_min (hd h) (tl h) in (m, remove1 m h))"

subsection \<open>The search\<close>

record search =
  dist_arr :: "real option list"
  prev_arr :: "nat option list"
  pq :: "(real \<times> nat) list"

text \<open>\<open>nd < dist[v]\<close>, where \<open>dist[v]\<close> may be \<open>math.inf\<close>.\<close>

definition dist_lt :: "real \<Rightarrow> real option \<Rightarrow> bool" where
  "dist_lt nd dv = (case dv of None \<Rightarrow> True | Some x \<Rightarrow> nd < x)"

text \<open>\<open>max(counts)\<close> on a non-empty list.\<close>

definition py_max :: "int list \<Rightarrow> int" where
  "py_max xs = fold max (tl xs) (hd xs)"

text \<open>
  The loop \<open>for v, w in adj.get(u, [])\<close> for the popped entry \<open>(d, u)\<close>. Reading
  \<open>counts[u]\<close>, \<open>counts[v]\<close> or \<open>dist[v]\<close> out of range raises \<open>IndexError\<close>.
\<close>

fun relax_edges ::
  "real \<Rightarrow> real \<Rightarrow> int list \<Rightarrow> int \<Rightarrow> real \<Rightarrow> nat \<Rightarrow> (nat \<times> real) list \<Rightarrow> search
     \<Rightarrow> py_error + search" where
  "relax_edges alpha beta counts maxc d u [] s = Inr s"
| "relax_edges alpha beta counts maxc d u ((v, w) # es) s =
     (if u < length counts \<and> v < length counts
      then (let traffic = of_int (counts ! u + counts ! v) / 2;
                nd = d + alpha * w + beta * (traffic / of_int maxc)
            in if v < length (dist_arr s) \<and> v < length (prev_arr s)
               then (if dist_lt nd (dist_arr s ! v)
                     then relax_edges alpha beta counts maxc d u es
                            (s\<lparr>dist_arr := (dist_arr s)[v := Some nd],
                               prev_arr := (prev_arr s)[v := Some u],
                               pq := heappush (pq s) (nd, v)\<rparr>)
                     else relax_edges alpha beta counts maxc d u es s)
               else Inl IndexError)
      else Inl IndexError)"

text \<open>
  The loop \<open>while pq\<close>: pop, skip a stale entry (\<open>continue\<close>), stop at the target
  (\<open>break\<close>), otherwise relax the edges of \<open>u\<close>. Over the reals the loop need not
  end (a cycle of negative cost keeps lowering distances), so its result is optional:
  \<open>None\<close> is a run that does not end. That it ends on well-formed input is proved
  further on.
\<close>

partial_function (option) search_loop ::
  "graph \<Rightarrow> int list \<Rightarrow> int \<Rightarrow> real \<Rightarrow> real \<Rightarrow> nat \<Rightarrow> search \<Rightarrow> (py_error + search) option"
  where
  "search_loop adj counts maxc alpha beta target s =
     (if pq s = [] then Some (Inr s)
      else (case heappop (pq s) of
              ((d, u), rest) \<Rightarrow>
                if u < length (dist_arr s)
                then (if dist_arr s ! u \<noteq> Some d
                      then search_loop adj counts maxc alpha beta target (s\<lparr>pq := rest\<rparr>)
                      else if u = target then Some (Inr (s\<lparr>pq := rest\<rparr>))
                      else (case relax_edges alpha beta counts maxc d u (adj_get adj u)
                                   (s\<lparr>pq := rest\<rparr>) of
                              Inl e \<Rightarrow> Some (Inl e)
                            | Inr s' \<Rightarrow> search_loop adj counts maxc alpha beta target s'))
                else Some (Inl IndexError)))"

declare search_loop.simps [code]

text \<open>
  \<open>dijkstra_weighted\<close> up to the comment \<open># reconstruct\<close>: the initial arrays, the
  normalisation \<open>maxc\<close>, and the loop. (\<open>path_selection.py\<close> has the same function and
  returns \<open>dist, prev\<close> at this point.)
\<close>

definition dijkstra_search ::
  "graph \<Rightarrow> (int \<times> int) list \<Rightarrow> int list \<Rightarrow> nat \<Rightarrow> nat \<Rightarrow> real \<Rightarrow> real
     \<Rightarrow> (py_error + search) option" where
  "dijkstra_search adj nodes counts start target alpha beta =
     (let N = length nodes in
      if \<not> start < N then Some (Inl IndexError)
      else if counts = [] then Some (Inl ValueError)
      else search_loop adj counts (max 1 (py_max counts)) alpha beta target
             \<lparr>dist_arr = (replicate N None)[start := Some 0],
              prev_arr = replicate N None,
              pq = [(0, start)]\<rparr>)"

text \<open>
  The loop \<open>while u != -1\<close> that collects the route backwards from the target; \<open>path\<close>
  is the list built so far.
\<close>

partial_function (option) reconstruct ::
  "nat option list \<Rightarrow> nat \<Rightarrow> nat \<Rightarrow> nat list \<Rightarrow> (py_error + nat list) option" where
  "reconstruct prev start u path =
     (if u = start then Some (Inr (path @ [u]))
      else if u < length prev
      then (case prev ! u of
              None \<Rightarrow> Some (Inr (path @ [u]))
            | Some u' \<Rightarrow> reconstruct prev start u' (path @ [u]))
      else Some (Inl IndexError))"

declare reconstruct.simps [code]

text \<open>
  \<open>dijkstra_weighted(adj, nodes, counts, start, target, alpha, beta)\<close>. The result
  \<open>Some (Inr None)\<close> is Python's \<open>return None\<close>; \<open>Some (Inr (Some p))\<close> returns the
  route \<open>p\<close>.
\<close>

definition dijkstra_weighted ::
  "graph \<Rightarrow> (int \<times> int) list \<Rightarrow> int list \<Rightarrow> nat \<Rightarrow> nat \<Rightarrow> real \<Rightarrow> real
     \<Rightarrow> (py_error + nat list option) option" where
  "dijkstra_weighted adj nodes counts start target alpha beta =
     (case dijkstra_search adj nodes counts start target alpha beta of
        None \<Rightarrow> None
      | Some (Inl e) \<Rightarrow> Some (Inl e)
      | Some (Inr s) \<Rightarrow>
          if target < length (dist_arr s)
          then (case dist_arr s ! target of
                  None \<Rightarrow> Some (Inr None)
                | Some dt \<Rightarrow>
                    (case reconstruct (prev_arr s) start target [] of
                       None \<Rightarrow> None
                     | Some (Inl e) \<Rightarrow> Some (Inl e)
                     | Some (Inr path) \<Rightarrow> Some (Inr (Some (rev path)))))
          else Some (Inl IndexError))"

text \<open>The default arguments \<open>alpha=1.0, beta=2.0\<close>, which every caller uses.\<close>

definition default_alpha :: real where
  "default_alpha = 1"

definition default_beta :: real where
  "default_beta = 2"

subsection \<open>The step cost as the design document states it\<close>

text \<open>
  \<open>alpha * weight + beta * (congestion(u) + congestion(v)) / 2 / max(1, max congestion)\<close>
  for the snapshot \<open>counts\<close>, and the distances that accumulate this cost edge by edge
  along a walk from \<open>start\<close>.
\<close>

definition spec_step_cost :: "real \<Rightarrow> real \<Rightarrow> int list \<Rightarrow> nat \<Rightarrow> nat \<Rightarrow> real \<Rightarrow> real" where
  "spec_step_cost alpha beta counts u v w =
     alpha * w + beta * ((of_int (counts ! u) + of_int (counts ! v)) / 2)
                   / of_int (max 1 (Max (set counts)))"

inductive accumulated :: "graph \<Rightarrow> int list \<Rightarrow> real \<Rightarrow> real \<Rightarrow> nat \<Rightarrow> nat \<Rightarrow> real \<Rightarrow> bool"
  for adj counts alpha beta start where
  at_start: "accumulated adj counts alpha beta start start 0"
| along_edge:
    "accumulated adj counts alpha beta start u d \<Longrightarrow> (v, w) \<in> set (adj_get adj u) \<Longrightarrow>
     accumulated adj counts alpha beta start v (d + spec_step_cost alpha beta counts u v w)"

text \<open>
  A route as the claims describe it: consecutive junctions \<open>x, y\<close> are joined by an edge,
  that is, \<open>y\<close> is listed among the neighbours of \<open>x\<close>.
\<close>

fun route_edges :: "graph \<Rightarrow> nat list \<Rightarrow> bool" where
  "route_edges adj (x # y # r) = (y \<in> fst ` set (adj_get adj x) \<and> route_edges adj (y # r))"
| "route_edges adj r = True"

section \<open>Multi-ambulance runtime (\<open>multi_ambulance_runner.py\<close>)\<close>

definition N_AMB :: nat where
  "N_AMB = 2"

definition REPLAN_INTERVAL :: int where
  "REPLAN_INTERVAL = 5"

definition max_ticks :: int where
  "max_ticks = 1000"

text \<open>
  An ambulance is the dictionary \<open>{'start', 'path', 'pos_idx', 'done'}\<close>; the fields
  carry the prefix \<open>amb_\<close>.
\<close>

record ambulance =
  amb_start :: nat
  amb_path :: "nat list"
  amb_pos_idx :: nat
  amb_done :: bool

text \<open>
  Results of code that may raise, or may not return: \<open>None\<close> does not return,
  \<open>Some (Inl e)\<close> raises \<open>e\<close>, \<open>Some (Inr x)\<close> returns \<open>x\<close>.
\<close>

definition bind_res ::
  "(py_error + 'a) option \<Rightarrow> ('a \<Rightarrow> (py_error + 'b) option) \<Rightarrow> (py_error + 'b) option" where
  "bind_res m f = (case m of None \<Rightarrow> None | Some (Inl e) \<Rightarrow> Some (Inl e) | Some (Inr x) \<Rightarrow> f x)"

text \<open>
  Spawning: \<open>p = dijkstra_weighted(adj, nodes, counts_vals, si, target)\<close>, then
  \<open>if p is None: p = [si, target]\<close>.
\<close>

definition spawn_ambulance ::
  "graph \<Rightarrow> (int \<times> int) list \<Rightarrow> int list \<Rightarrow> nat \<Rightarrow> nat \<Rightarrow> (py_error + ambulance) option" where
  "spawn_ambulance adj nodes counts_vals target si =
     bind_res (dijkstra_weighted adj nodes counts_vals si target default_alpha default_beta)
       (\<lambda>p. Some (Inr \<lparr>amb_start = si,
                        amb_path = (case p of None \<Rightarrow> [si, target] | Some r \<Rightarrow> r),
                        amb_pos_idx = 0,
                        amb_done = False\<rparr>))"

fun spawn_all ::
  "graph \<Rightarrow> (int \<times> int) list \<Rightarrow> int list \<Rightarrow> nat \<Rightarrow> nat list
     \<Rightarrow> (py_error + ambulance list) option" where
  "spawn_all adj nodes counts_vals target [] = Some (Inr [])"
| "spawn_all adj nodes counts_vals target (si # spawns) =
     bind_res (spawn_ambulance adj nodes counts_vals target si)
       (\<lambda>a. bind_res (spawn_all adj nodes counts_vals target spawns)
          (\<lambda>rest. Some (Inr (a # rest))))"

text \<open>
  The replanning step of one ambulance at tick count \<open>ticks\<close>. \<open>if newp:\<close> is true for
  a non-empty list and false for \<open>None\<close> and for the empty list.
\<close>

definition replan ::
  "graph \<Rightarrow> (int \<times> int) list \<Rightarrow> int list \<Rightarrow> nat \<Rightarrow> int \<Rightarrow> ambulance
     \<Rightarrow> (py_error + ambulance) option" where
  "replan adj nodes counts_vals target ticks a =
     (if ticks mod REPLAN_INTERVAL = 0 \<and> int (amb_pos_idx a) < int (length (amb_path a)) - 1
      then bind_res
             (dijkstra_weighted adj nodes counts_vals (amb_path a ! amb_pos_idx a) target
                default_alpha default_beta)
             (\<lambda>newp. Some (Inr (case newp of
                                   None \<Rightarrow> a
                                 | Some p \<Rightarrow>
                                     if p \<noteq> [] then a\<lparr>amb_path := p, amb_pos_idx := 0\<rparr>
                                     else a)))
      else Some (Inr a))"

text \<open>Move forward one junction if possible, else mark the ambulance done.\<close>

definition advance :: "ambulance \<Rightarrow> ambulance" where
  "advance a =
     (if int (amb_pos_idx a) < int (length (amb_path a)) - 1
      then a\<lparr>amb_pos_idx := amb_pos_idx a + 1\<rparr>
      else a\<lparr>amb_done := True\<rparr>)"

text \<open>
  The exported frame word of a position \<open>(x, y)\<close>:
  \<open>(((x & 0x3FF) << 22) | ((y & 0x3FF) << 12)) & 0xFFFFFFFF\<close>.
\<close>

definition frame_word :: "int \<times> int \<Rightarrow> int" where
  "frame_word xy =
     (case xy of (x, y) \<Rightarrow>
        and (or (push_bit 22 (and x 1023)) (push_bit 12 (and y 1023))) 4294967295)"

text \<open>
  The body of \<open>for ai, a in enumerate(ambulances)\<close> for one ambulance that is not done:
  replan, move, and append the frame of the junction reached to \<open>amb_frames[ai]\<close>.
\<close>

definition step_ambulance ::
  "graph \<Rightarrow> (int \<times> int) list \<Rightarrow> int list \<Rightarrow> nat \<Rightarrow> int \<Rightarrow> nat \<Rightarrow> ambulance \<Rightarrow> int list list
     \<Rightarrow> (py_error + ambulance \<times> int list list) option" where
  "step_ambulance adj nodes counts_vals target ticks ai a amb_frames =
     bind_res (replan adj nodes counts_vals target ticks a)
       (\<lambda>a1. let a2 = advance a1 in
          if amb_pos_idx a2 < length (amb_path a2)
          then (let cur = amb_path a2 ! amb_pos_idx a2 in
                if cur < length nodes \<and> ai < length amb_frames
                then Some (Inr (a2, amb_frames[ai := amb_frames ! ai @ [frame_word (nodes ! cur)]]))
                else Some (Inl IndexError))
          else Some (Inl IndexError))"

fun step_ambulances ::
  "graph \<Rightarrow> (int \<times> int) list \<Rightarrow> int list \<Rightarrow> nat \<Rightarrow> int \<Rightarrow> nat \<Rightarrow> ambulance list \<Rightarrow> int list list
     \<Rightarrow> (py_error + ambulance list \<times> int list list) option" where
  "step_ambulances adj nodes counts_vals target ticks ai [] amb_frames = Some (Inr ([], amb_frames))"
| "step_ambulances adj nodes counts_vals target ticks ai (a # rest) amb_frames =
     (if amb_done a
      then bind_res (step_ambulances adj nodes counts_vals target ticks (ai + 1) rest amb_frames)
             (\<lambda>(rest', frames'). Some (Inr (a # rest', frames')))
      else bind_res (step_ambulance adj nodes counts_vals target ticks ai a amb_frames)
             (\<lambda>(a', frames1).
                bind_res (step_ambulances adj nodes counts_vals target ticks (ai + 1) rest frames1)
                  (\<lambda>(rest', frames'). Some (Inr (a' # rest', frames')))))"

text \<open>
  The junction whose count an ambulance decrements: \<open>a['path'][max(0, a['pos_idx']-1)]\<close>.
\<close>

definition passed_index :: "ambulance \<Rightarrow> nat" where
  "passed_index a = nat (max 0 (int (amb_pos_idx a) - 1))"

text \<open>One decrement: \<open>if counts_vals[idx] > 0: counts_vals[idx] = max(0, counts_vals[idx]-1)\<close>.\<close>

definition decrement :: "int list \<Rightarrow> nat \<Rightarrow> py_error + int list" where
  "decrement counts_vals idx =
     (if idx < length counts_vals
      then Inr (if counts_vals ! idx > 0
                then counts_vals[idx := max 0 (counts_vals ! idx - 1)]
                else counts_vals)
      else Inl IndexError)"

text \<open>The loop \<open>for a in ambulances\<close> that closes a tick; it does not test \<open>done\<close>.\<close>

fun decrement_passed :: "ambulance list \<Rightarrow> int list \<Rightarrow> py_error + int list" where
  "decrement_passed [] counts_vals = Inr counts_vals"
| "decrement_passed (a # rest) counts_vals =
     (if passed_index a < length (amb_path a)
      then (case decrement counts_vals (amb_path a ! passed_index a) of
              Inl e \<Rightarrow> Inl e
            | Inr counts' \<Rightarrow> decrement_passed rest counts')
      else Inl IndexError)"

record run_state =
  ticks :: int
  ambulances :: "ambulance list"
  counts_vals :: "int list"
  amb_frames :: "int list list"

text \<open>One iteration of the \<open>while\<close> loop of \<open>main\<close>.\<close>

definition tick :: "graph \<Rightarrow> (int \<times> int) list \<Rightarrow> nat \<Rightarrow> run_state \<Rightarrow> (py_error + run_state) option"
  where
  "tick adj nodes target st =
     bind_res (step_ambulances adj nodes (counts_vals st) target (ticks st + 1) 0
                 (ambulances st) (amb_frames st))
       (\<lambda>(ambs, frames).
          (case decrement_passed ambs (counts_vals st) of
             Inl e \<Rightarrow> Some (Inl e)
           | Inr counts' \<Rightarrow>
               Some (Inr \<lparr>ticks = ticks st + 1, ambulances = ambs,
                          counts_vals = counts', amb_frames = frames\<rparr>)))"

text \<open>
  The loop \<open>while ticks < max_ticks and not all(a['done'] for a in ambulances)\<close>. The
  recursion is on the ticks that remain.
\<close>

fun run_ticks :: "nat \<Rightarrow> graph \<Rightarrow> (int \<times> int) list \<Rightarrow> nat \<Rightarrow> run_state \<Rightarrow> (py_error + run_state) option"
  where
  "run_ticks 0 adj nodes target st = Some (Inr st)"
| "run_ticks (Suc n) adj nodes target st =
     (if list_all amb_done (ambulances st) then Some (Inr st)
      else bind_res (tick adj nodes target st) (run_ticks n adj nodes target))"

text \<open>
  \<open>main\<close> from the spawns on: the ambulances, the empty frame lists, and the loop, which
  starts at \<open>ticks = 0\<close> and so runs at most \<open>max_ticks\<close> times.
\<close>

definition run_main ::
  "graph \<Rightarrow> (int \<times> int) list \<Rightarrow> int list \<Rightarrow> nat \<Rightarrow> nat list \<Rightarrow> (py_error + run_state) option" where
  "run_main adj nodes counts target spawns =
     bind_res (spawn_all adj nodes counts target spawns)
       (\<lambda>ambs. run_ticks (nat max_ticks) adj nodes target
                 \<lparr>ticks = 0, ambulances = ambs, counts_vals = counts,
                  amb_frames = replicate N_AMB []\<rparr>)"

text \<open>
  What holds of every ambulance between two ticks: the route is not empty, the cursor is
  on the route, and a done ambulance stands on the last junction of its route.
\<close>

definition amb_ok :: "ambulance \<Rightarrow> bool" where
  "amb_ok a =
     (amb_path a \<noteq> [] \<and> amb_pos_idx a < length (amb_path a) \<and>
      (amb_done a \<longrightarrow> amb_pos_idx a + 1 = length (amb_path a)))"

text \<open>The junction \<open>a['path'][max(0, a['pos_idx']-1)]\<close> of an ambulance.\<close>

definition passed_junction :: "ambulance \<Rightarrow> nat" where
  "passed_junction a = amb_path a ! passed_index a"

text \<open>
  The replanning step as the design document states it: when the tick count is divisible
  by the interval and the cursor is before the last index of the route, solve from the
  current junction to the target; a route replaces the old one and resets the cursor to
  0, a failed solve changes nothing.
\<close>

definition spec_replan ::
  "graph \<Rightarrow> (int \<times> int) list \<Rightarrow> int list \<Rightarrow> nat \<Rightarrow> int \<Rightarrow> ambulance
     \<Rightarrow> (py_error + ambulance) option" where
  "spec_replan adj nodes counts target t a =
     (if REPLAN_INTERVAL dvd t \<and> amb_pos_idx a + 1 < length (amb_path a)
      then (case dijkstra_weighted adj nodes counts (amb_path a ! amb_pos_idx a) target
                  default_alpha default_beta of
              None \<Rightarrow> None
            | Some (Inl e) \<Rightarrow> Some (Inl e)
            | Some (Inr None) \<Rightarrow> Some (Inr a)
            | Some (Inr (Some p)) \<Rightarrow> Some (Inr (a\<lparr>amb_path := p, amb_pos_idx := 0\<rparr>)))
      else Some (Inr a))"

section \<open>Graph construction (\<open>build_graph\<close>)\<close>

text \<open>\<open>euclid(a, b) = math.hypot(a[0]-b[0], a[1]-b[1])\<close>, over the reals.\<close>

definition euclid :: "int \<times> int \<Rightarrow> int \<times> int \<Rightarrow> real" where
  "euclid a b = sqrt (of_int ((fst a - fst b)\<^sup>2 + (snd a - snd b)\<^sup>2))"

text \<open>
  \<open>node_map = {nodes[i]: i for i in range(len(nodes))}\<close>: of two junctions at the same
  position the later index stays.
\<close>

definition node_map :: "(int \<times> int) list \<Rightarrow> (int \<times> int \<rightharpoonup> nat)" where
  "node_map nodes = fold (\<lambda>(i, p) m. m(p \<mapsto> i)) (enumerate 0 nodes) Map.empty"

text \<open>
  The fallback scan of \<open>find_nearest_node_idx\<close>: \<open>best = None; bd = 1e9\<close>, and a
  junction replaces the best one when its squared distance is strictly smaller.
\<close>

definition nearest_scan :: "(int \<times> int) list \<Rightarrow> int \<times> int \<Rightarrow> nat option" where
  "nearest_scan nodes pt =
     fst (fold (\<lambda>(i, p) (best, bd).
                  let d = (fst p - fst pt)\<^sup>2 + (snd p - snd pt)\<^sup>2
                  in if d < bd then (Some i, d) else (best, bd))
            (enumerate 0 nodes) (None, 1000000000))"

definition find_nearest_node_idx :: "(int \<times> int) list \<Rightarrow> int \<times> int \<Rightarrow> nat option" where
  "find_nearest_node_idx nodes pt =
     (case node_map nodes pt of Some i \<Rightarrow> Some i | None \<Rightarrow> nearest_scan nodes pt)"

text \<open>
  \<open>adj[a].append((b,w)); adj[b].append((a,w))\<close> on the \<open>defaultdict(list)\<close>.
\<close>

definition add_edge :: "graph \<Rightarrow> nat \<Rightarrow> nat \<Rightarrow> real \<Rightarrow> graph" where
  "add_edge adj a b w =
     (let adj1 = adj(a \<mapsto> adj_get adj a @ [(b, w)])
      in adj1(b \<mapsto> adj_get adj1 b @ [(a, w)]))"

text \<open>The loop \<open>for poly in polylines\<close>, with its two \<open>continue\<close> tests.\<close>

fun build_edges :: "(int \<times> int) list \<Rightarrow> (int \<times> int) list list \<Rightarrow> graph \<Rightarrow> graph" where
  "build_edges nodes [] adj = adj"
| "build_edges nodes (poly # rest) adj =
     (if length poly < 2 then build_edges nodes rest adj
      else (case (find_nearest_node_idx nodes (hd poly), find_nearest_node_idx nodes (last poly)) of
              (Some a, Some b) \<Rightarrow>
                if a = b then build_edges nodes rest adj
                else build_edges nodes rest (add_edge adj a b (euclid (nodes ! a) (nodes ! b)))
            | _ \<Rightarrow> build_edges nodes rest adj))"

definition build_graph :: "(int \<times> int) list \<Rightarrow> (int \<times> int) list list \<Rightarrow> graph" where
  "build_graph nodes polylines = build_edges nodes polylines Map.empty"

text \<open>
  The polylines that yield an edge: at least two points, and end points that snap to two
  different junctions.
\<close>

definition yields_edge :: "(int \<times> int) list \<Rightarrow> (int \<times> int) list \<Rightarrow> bool" where
  "yields_edge nodes poly =
     (2 \<le> length poly \<and>
      find_nearest_node_idx nodes (hd poly) \<noteq> None \<and>
      find_nearest_node_idx nodes (last poly) \<noteq> None \<and>
      find_nearest_node_idx nodes (hd poly) \<noteq> find_nearest_node_idx nodes (last poly))"

section \<open>Invariants used in the proofs\<close>

text \<open>
  The state of the search between two steps of the loop: the arrays have one entry per
  junction, every queued junction has a finite distance, every finite distance is the cost
  accumulated along some walk from \<open>start\<close>, and every junction other than \<open>start\<close>
  with a finite distance has a predecessor with a finite distance from which an edge leads
  to it.
\<close>

definition search_inv ::
  "graph \<Rightarrow> int list \<Rightarrow> real \<Rightarrow> real \<Rightarrow> nat \<Rightarrow> nat \<Rightarrow> search \<Rightarrow> bool" where
  "search_inv adj counts alpha beta start N s =
     (length (dist_arr s) = N \<and> length (prev_arr s) = N \<and> start < N \<and>
      (\<forall>e \<in> set (pq s). snd e < N \<and> dist_arr s ! snd e \<noteq> None) \<and>
      dist_arr s ! start \<noteq> None \<and>
      (\<forall>v dv. v < N \<longrightarrow> dist_arr s ! v = Some dv \<longrightarrow>
         accumulated adj counts alpha beta start v dv) \<and>
      (\<forall>v. v < N \<longrightarrow> v \<noteq> start \<longrightarrow> dist_arr s ! v \<noteq> None \<longrightarrow>
         (\<exists>u. prev_arr s ! v = Some u \<and> u < N \<and> dist_arr s ! u \<noteq> None \<and>
              v \<in> fst ` set (adj_get adj u))))"

text \<open>What \<open>build_graph\<close> maintains for every entry of the adjacency lists.\<close>

definition graph_ok :: "(int \<times> int) list \<Rightarrow> graph \<Rightarrow> bool" where
  "graph_ok nodes adj =
     (\<forall>a b w. (b, w) \<in> set (adj_get adj a) \<longrightarrow>
        a \<noteq> b \<and> a < length nodes \<and> b < length nodes \<and> w = euclid (nodes ! a) (nodes ! b))"

text \<open>
  For the proof that the search ends. A junction is live when the queue holds an entry
  with its current distance, and settled when its distance is finite and it is not live.
  \<open>fchain\<close> follows \<open>prev\<close> through settled junctions down to \<open>start\<close>. Between
  two steps of the loop the queue has no duplicates, no entry is below the distance of
  its junction, no settled junction lies above an entry of the queue, and the predecessor
  of every reached junction starts such a chain. The junctions that are not settled are
  the ones still pending.
\<close>

definition live :: "search \<Rightarrow> nat \<Rightarrow> bool" where
  "live s v = (\<exists>d. dist_arr s ! v = Some d \<and> (d, v) \<in> set (pq s))"

definition settled :: "search \<Rightarrow> nat \<Rightarrow> bool" where
  "settled s v = (v < length (dist_arr s) \<and> dist_arr s ! v \<noteq> None \<and> \<not> live s v)"

inductive fchain :: "search \<Rightarrow> nat \<Rightarrow> nat \<Rightarrow> bool" for s start where
  fchain_start: "settled s start \<Longrightarrow> fchain s start start"
| fchain_step:
    "v \<noteq> start \<Longrightarrow> settled s v \<Longrightarrow> prev_arr s ! v = Some u \<Longrightarrow> fchain s start u \<Longrightarrow>
     fchain s start v"

definition core_inv :: "nat \<Rightarrow> nat \<Rightarrow> search \<Rightarrow> bool" where
  "core_inv N start s =
     (length (dist_arr s) = N \<and> length (prev_arr s) = N \<and> start < N \<and>
      dist_arr s ! start \<noteq> None \<and> distinct (pq s) \<and>
      (\<forall>e \<in> set (pq s). snd e < N \<and> (\<exists>d'. dist_arr s ! snd e = Some d' \<and> d' \<le> fst e)) \<and>
      (\<forall>v. v < N \<longrightarrow> v \<noteq> start \<longrightarrow> dist_arr s ! v \<noteq> None \<longrightarrow>
         (\<exists>u. prev_arr s ! v = Some u \<and> fchain s start u)))"

definition total_inv :: "nat \<Rightarrow> nat \<Rightarrow> search \<Rightarrow> bool" where
  "total_inv N start s =
     (core_inv N start s \<and>
      (\<forall>v dv. settled s v \<longrightarrow> dist_arr s ! v = Some dv \<longrightarrow> (\<forall>e \<in> set (pq s). dv \<le> fst e)))"

definition relax_inv :: "nat \<Rightarrow> nat \<Rightarrow> real \<Rightarrow> nat \<Rightarrow> search \<Rightarrow> bool" where
  "relax_inv N start d u s =
     (core_inv N start s \<and> (\<forall>e \<in> set (pq s). d \<le> fst e) \<and>
      (\<forall>v dv. settled s v \<longrightarrow> dist_arr s ! v = Some dv \<longrightarrow> dv \<le> d) \<and>
      fchain s start u)"

definition pending :: "nat \<Rightarrow> search \<Rightarrow> nat set" where
  "pending N s = {v. v < N \<and> \<not> settled s v}"

text \<open>
  Inputs on which every read of the search is in range and every step cost is
  non-negative: weights and counts \<open>\<ge> 0\<close>, \<open>alpha, beta \<ge> 0\<close>, a count for every
  junction, and neighbours that are junctions.
\<close>

definition well_formed :: "graph \<Rightarrow> (int \<times> int) list \<Rightarrow> int list \<Rightarrow> real \<Rightarrow> real \<Rightarrow> bool" where
  "well_formed adj nodes counts alpha beta =
     (0 \<le> alpha \<and> 0 \<le> beta \<and> length nodes \<le> length counts \<and> (\<forall>c \<in> set counts. 0 \<le> c) \<and>
      (\<forall>u < length nodes. \<forall>e \<in> set (adj_get adj u). fst e < length nodes \<and> 0 \<le> snd e))"

text \<open>
  States from which a tick cannot raise: the input of the search is well formed, the
  target and every junction of every route are junctions, the ambulances satisfy
  \<open>amb_ok\<close>, and every ambulance has its list of frames.
\<close>

definition in_range :: "nat \<Rightarrow> ambulance \<Rightarrow> bool" where
  "in_range N a = (\<forall>x \<in> set (amb_path a). x < N)"

definition run_ok :: "graph \<Rightarrow> (int \<times> int) list \<Rightarrow> nat \<Rightarrow> run_state \<Rightarrow> bool" where
  "run_ok adj nodes target st =
     (well_formed adj nodes (counts_vals st) default_alpha default_beta \<and>
      target < length nodes \<and>
      list_all amb_ok (ambulances st) \<and>
      list_all (in_range (length nodes)) (ambulances st) \<and>
      length (ambulances st) \<le> length (amb_frames st))"

section \<open>Tier partition: properties\<close>

lemma py_round_upper: "of_int (py_round x) \<le> x + 1 / 2"
proof -
  have "of_int \<lfloor>x\<rfloor> \<le> x" by simp
  moreover have "x < of_int \<lfloor>x\<rfloor> + 1" by linarith
  ultimately show ?thesis
    unfolding py_round_def Let_def by (auto simp: not_less; linarith?)
qed

lemma py_round_lower: "x - 1 / 2 \<le> of_int (py_round x)"
proof -
  have "of_int \<lfloor>x\<rfloor> \<le> x" by simp
  moreover have "x < of_int \<lfloor>x\<rfloor> + 1" by linarith
  ultimately show ?thesis
    unfolding py_round_def Let_def by (auto simp: not_less; linarith?)
qed

lemma partition_counts_main:
  assumes "4 \<le> L"
  shows "partition_counts L =
     (let n1 = max 1 (py_round (15 / 100 * of_int L));
          n2 = max 3 (py_round (40 / 100 * of_int L));
          n3 = L - n1 - n2;
          take = (if n3 < 4 then min (4 - n3) (n2 - 3) else 0)
      in (n1, n2 - take, n3 + take))
     \<and> 0 \<le> L - max 1 (py_round (15 / 100 * of_int L)) - max 3 (py_round (40 / 100 * of_int L))"
proof -
  define r1 where "r1 = py_round (15 / 100 * of_int L)"
  define r2 where "r2 = py_round (40 / 100 * of_int L)"
  have u1: "rat_of_int r1 \<le> 15 / 100 * of_int L + 1 / 2"
    unfolding r1_def by (rule py_round_upper)
  have u2: "rat_of_int r2 \<le> 40 / 100 * of_int L + 1 / 2"
    unfolding r2_def by (rule py_round_upper)
  have "rat_of_int (20 * r1) \<le> rat_of_int (3 * L + 10)"
    using u1 by simp
  then have b1: "20 * r1 \<le> 3 * L + 10"
    by (simp only: of_int_le_iff)
  have "rat_of_int (10 * r2) \<le> rat_of_int (4 * L + 5)"
    using u2 by simp
  then have b2: "10 * r2 \<le> 4 * L + 5"
    by (simp only: of_int_le_iff)
  have n3: "0 \<le> L - max 1 r1 - max 3 r2"
    using b1 b2 assms by (auto simp: max_def)
  show ?thesis
    using n3 unfolding partition_counts_def r1_def [symmetric] r2_def [symmetric] Let_def
    by (auto simp: min_def)
qed

text \<open>
  Claim C3. For every route length \<open>L \<ge> 4\<close> the partition computed by
  \<open>partition_counts\<close> is the one the stated rule gives (rounded shares with minima 1 and
  3, remainder, transfer from tier 2 to tier 3 that keeps tier 2 at 3 or more; the
  fallback branch is never taken), and it satisfies \<open>n1 \<ge> 1\<close>, \<open>n2 \<ge> 3\<close>,
  \<open>n1 + n2 + n3 = L\<close> and \<open>n3 \<ge> 0\<close>.
\<close>

theorem partition_counts_tiers:
  assumes "4 \<le> L"
  shows "partition_counts L = spec_tier_rule L \<and>
         (case partition_counts L of
            (n1, n2, n3) \<Rightarrow> 1 \<le> n1 \<and> 3 \<le> n2 \<and> n1 + n2 + n3 = L \<and> 0 \<le> n3)"
proof -
  from partition_counts_main [OF assms]
  have eq: "partition_counts L = spec_tier_rule L"
    and nonneg: "0 \<le> L - max 1 (py_round (15 / 100 * of_int L))
                      - max 3 (py_round (40 / 100 * of_int L))"
    unfolding spec_tier_rule_def by simp_all
  have "case spec_tier_rule L of
          (n1, n2, n3) \<Rightarrow> 1 \<le> n1 \<and> 3 \<le> n2 \<and> n1 + n2 + n3 = L \<and> 0 \<le> n3"
    using nonneg unfolding spec_tier_rule_def Let_def
    by (auto simp: min_def)
  with eq show ?thesis by simp
qed

theorem partition_counts_tiers_witness:
  "(4::int) \<le> 7 \<and> partition_counts 7 = spec_tier_rule 7 \<and> partition_counts 7 = (1, 3, 3)"
proof -
  have "partition_counts 7 = (1, 3, 3)" by code_simp
  with partition_counts_tiers [of 7] show ?thesis by simp
qed

section \<open>Preemption scenario on the route 0..6\<close>

lemma partition_counts_7: "partition_counts 7 = (1, 3, 3)"
  by code_simp

lemma base_timings: "G_T = 60" "Y_T = 10" "R_T = 30"
  by code_simp+

lemma assign_tiers_route7:
  "assign_tiers [0, Suc 0, 2, 3, 4, 5, 6] 1 3 0 = Some tier1"
  "assign_tiers [0, Suc 0, 2, 3, 4, 5, 6] 1 3 (Suc 0) = Some tier2"
  "assign_tiers [0, Suc 0, 2, 3, 4, 5, 6] 1 3 2 = Some tier2"
  "assign_tiers [0, Suc 0, 2, 3, 4, 5, 6] 1 3 3 = Some tier2"
  "assign_tiers [0, Suc 0, 2, 3, 4, 5, 6] 1 3 4 = Some tier3"
  "assign_tiers [0, Suc 0, 2, 3, 4, 5, 6] 1 3 5 = Some tier3"
  "assign_tiers [0, Suc 0, 2, 3, 4, 5, 6] 1 3 6 = Some tier3"
  by (simp_all add: assign_tiers_def tier_of_def enumerate_eq_zip upt_rec)

lemma assign_tiers_route7_tier1:
  "(assign_tiers [0, Suc 0, 2, 3, 4, 5, 6] 1 3 j = Some tier1) = (j = 0)"
  by (simp add: assign_tiers_def tier_of_def enumerate_eq_zip upt_rec)

text \<open>
  Claim C8. With at least seven junctions and the route \<open>[0,1,2,3,4,5,6]\<close> the setup
  succeeds with \<open>(n1, n2, n3) = (1, 3, 3)\<close>; junction 0 is the only tier-1 junction and
  its simulated entry is GREEN (state 1) with timer twice the base green duration;
  junction 6 is in tier 3, its red duration is the base red duration scaled by 0.6
  (18 ticks) and its green duration is the base green duration.
\<close>

theorem stage2_route7_preemption:
  assumes "7 \<le> N"
  shows "\<exists>t. stage2_setup N [0, 1, 2, 3, 4, 5, 6] = Inr t \<and>
           n123 t = (1, 3, 3) \<and>
           (\<forall>j. (assign_tiers [0, 1, 2, 3, 4, 5, 6] 1 3 j = Some tier1) = (j = 0)) \<and>
           sim_selected_state t ! 0 = (1, 2 * G_T) \<and>
           assign_tiers [0, 1, 2, 3, 4, 5, 6] 1 3 6 = Some tier3 \<and>
           R (selected_timings t ! 6) = py_int (of_int R_T * (6 / 10)) \<and>
           R (selected_timings t ! 6) = 18 \<and>
           G (selected_timings t ! 6) = G_T"
  using assms
  by (simp add: stage2_setup_def partition_counts_7 assign_tiers_route7
      assign_tiers_route7_tier1 base_timings modify_timings_def py_int_def Let_def)

theorem stage2_route7_preemption_witness:
  "(7::nat) \<le> 7 \<and>
   (\<exists>t. stage2_setup 7 [0, 1, 2, 3, 4, 5, 6] = Inr t \<and> n123 t = (1, 3, 3) \<and>
        sim_selected_state t ! 0 = (1, 120) \<and>
        R (selected_timings t ! 6) = 18 \<and> G (selected_timings t ! 6) = 60)"
proof -
  from stage2_route7_preemption [of 7] obtain t where
    "stage2_setup 7 [0, 1, 2, 3, 4, 5, 6] = Inr t" "n123 t = (1, 3, 3)"
    "sim_selected_state t ! 0 = (1, 2 * G_T)"
    "R (selected_timings t ! 6) = 18" "G (selected_timings t ! 6) = G_T"
    by auto
  then show ?thesis by (auto simp: base_timings)
qed

section \<open>Signal cycles: properties\<close>

lemma phase_durations_pos: "0 < G_T" "0 < Y_T" "0 < R_T"
  by (simp_all add: base_timings)

lemma advance_light_step:
  assumes "valid_light l"
  shows "valid_light (advance_light l)"
    and "(fst (advance_light l) \<noteq> fst l) = (snd l \<le> 1)"
    and "fst (advance_light l) \<noteq> fst l \<Longrightarrow>
           fst (advance_light l) = cycle_next (fst l) \<and>
           snd (advance_light l) =
             (if fst (advance_light l) = GREEN then GREEN_LEN
              else if fst (advance_light l) = YELLOW then YELLOW_LEN else RED_LEN)"
  using assms
  by (auto simp: valid_light_def advance_light_def cycle_next_def RED_def GREEN_def YELLOW_def
      GREEN_LEN_def YELLOW_LEN_def RED_LEN_def split: prod.splits if_splits)

lemma light_tick_step:
  assumes "valid_light l"
  shows "valid_light (light_tick l)"
    and "(fst (light_tick l) \<noteq> fst l) = (snd l \<le> 1)"
    and "fst (light_tick l) \<noteq> fst l \<Longrightarrow>
           fst (light_tick l) = cycle_next (fst l) \<and>
           snd (light_tick l) =
             (if fst (light_tick l) = GREEN then G_T
              else if fst (light_tick l) = YELLOW then Y_T else R_T)"
  using assms
  by (auto simp: valid_light_def light_tick_def cycle_next_def RED_def GREEN_def YELLOW_def
      base_timings Let_def split: prod.splits if_splits)

lemma advance_lights_valid:
  "list_all valid_light lights \<Longrightarrow> list_all valid_light ((advance_lights ^^ n) lights)"
  by (induction n) (auto simp: advance_lights_def list_all_iff advance_light_step(1))

lemma stage0_tick_valid:
  "list_all (\<lambda>lc. valid_light (fst lc)) js \<Longrightarrow>
   list_all (\<lambda>lc. valid_light (fst lc)) (stage0_tick arrivals js)"
proof -
  assume v: "list_all (\<lambda>lc. valid_light (fst lc)) js"
  have "valid_light (fst (junction_tick a lc))" if "lc \<in> set js" for a lc
  proof -
    from v that have "valid_light (fst lc)" by (simp add: list_all_iff)
    then show ?thesis
      by (cases lc) (simp add: junction_tick_def light_tick_step(1))
  qed
  then show ?thesis
    unfolding stage0_tick_def list_all_iff
    by (auto simp: in_set_enumerate_eq) (metis nth_mem)
qed

lemma stage0_run_valid:
  "list_all (\<lambda>lc. valid_light (fst lc)) js \<Longrightarrow>
   list_all (\<lambda>lc. valid_light (fst lc)) (stage0_run arrs js)"
  by (induction arrs arbitrary: js) (auto simp: stage0_tick_valid)

text \<open>
  Claim C2, as amended. In both simulators every light keeps a phase among RED, GREEN,
  YELLOW and a timer \<open>\<ge> 0\<close> through any number of ticks; a tick changes the phase
  exactly when the timer was at most 1 at the start of that tick (the countdown reaches 0
  within the tick), never because it was 0; and every change goes to the next phase of the
  cycle RED, GREEN, YELLOW, RED and reloads the timer with the duration of the new phase.
\<close>

theorem signal_cycle:
  assumes "list_all valid_light lights" and "list_all (\<lambda>lc. valid_light (fst lc)) js"
  shows "list_all valid_light ((advance_lights ^^ n) lights) \<and>
         list_all (\<lambda>lc. valid_light (fst lc)) (stage0_run arrs js) \<and>
         (\<forall>l. valid_light l \<longrightarrow>
            valid_light (advance_light l) \<and> valid_light (light_tick l) \<and>
            ((fst (advance_light l) \<noteq> fst l) = (snd l \<le> 1)) \<and>
            ((fst (light_tick l) \<noteq> fst l) = (snd l \<le> 1)) \<and>
            (fst (advance_light l) \<noteq> fst l \<longrightarrow>
               fst (advance_light l) = cycle_next (fst l) \<and>
               snd (advance_light l) =
                 (if fst (advance_light l) = GREEN then GREEN_LEN
                  else if fst (advance_light l) = YELLOW then YELLOW_LEN else RED_LEN)) \<and>
            (fst (light_tick l) \<noteq> fst l \<longrightarrow>
               fst (light_tick l) = cycle_next (fst l) \<and>
               snd (light_tick l) =
                 (if fst (light_tick l) = GREEN then G_T
                  else if fst (light_tick l) = YELLOW then Y_T else R_T)))"
  using assms advance_lights_valid stage0_run_valid advance_light_step light_tick_step
  by blast

theorem signal_cycle_witness:
  "list_all valid_light [(0, 1), (1, 5)] \<and>
   list_all (\<lambda>lc. valid_light (fst lc)) [((2, 1), 3 :: int)] \<and>
   list_all valid_light ((advance_lights ^^ 2) [(0, 1), (1, 5)]) \<and>
   (advance_lights ^^ 2) [(0, 1), (1, 5)] = [(1, 119), (1, 3)] \<and>
   stage0_run [\<lambda>_. True] [((2, 1), 3)] = [((0, 30), 4)] \<and>
   valid_light (0, 1) \<and> fst (advance_light (0, 1)) \<noteq> fst (0 :: int, 1 :: int) \<and>
   fst (advance_light (0, 1)) = cycle_next 0 \<and> snd (advance_light (0, 1)) = GREEN_LEN"
proof -
  have a: "list_all valid_light [(0, 1), (1, 5)]"
    by (simp add: valid_light_def RED_def GREEN_def YELLOW_def)
  have b: "list_all (\<lambda>lc. valid_light (fst lc)) [((2, 1), 3 :: int)]"
    by (simp add: valid_light_def RED_def GREEN_def YELLOW_def)
  have c: "(advance_lights ^^ 2) [(0, 1), (1, 5)] = [(1, 119), (1, 3)]"
    by (simp add: numeral_2_eq_2 advance_lights_def advance_light_def GREEN_LEN_def)
  have d: "stage0_run [\<lambda>_. True] [((2, 1), 3)] = [((0, 30), 4)]"
    by (simp add: stage0_tick_def junction_tick_def light_tick_def depart_def arrive_def
        base_timings enumerate_eq_zip)
  have e: "valid_light (0, 1)"
    by (simp add: valid_light_def RED_def)
  have f: "fst (advance_light (0, 1)) \<noteq> fst (0 :: int, 1 :: int)"
    by (simp add: advance_light_def)
  note th = signal_cycle [OF a b, of 2 "[\<lambda>_. True]"]
  from th have g: "list_all valid_light ((advance_lights ^^ 2) [(0, 1), (1, 5)])"
    by (rule conjunct1)
  from th e f have h: "fst (advance_light (0, 1)) = cycle_next (fst (0 :: int, 1 :: int))"
    by blast
  have i: "snd (advance_light (0, 1)) = GREEN_LEN"
    by (simp add: advance_light_def)
  from a b c d e f g h i show ?thesis by simp
qed

text \<open>
  Claim C2 as stated fails: a RED light with timer 1 turns GREEN in the next tick of either
  simulator, although its timer was not 0 at the start of that tick.
\<close>

theorem signal_transition_at_zero_counterexample:
  "\<not> transition_only_at_zero advance_light (0, 1) \<and>
   \<not> transition_only_at_zero light_tick (0, 1)"
  by (simp add: transition_only_at_zero_def advance_light_def light_tick_def)

section \<open>Shortest-path search: invariants\<close>

lemma heap_min_mem: "heap_min m xs \<in> set (m # xs)"
  by (induction xs arbitrary: m) auto

lemma heappop_mem:
  assumes "h \<noteq> []" and "heappop h = (m, rest)"
  shows "m \<in> set h" and "set rest \<subseteq> set h"
proof -
  from assms(1) obtain x xs where h: "h = x # xs" by (cases h) auto
  from assms(2) have m: "m = heap_min x xs" and r: "rest = remove1 m h"
    by (auto simp: heappop_def h Let_def)
  from m heap_min_mem [of x xs] show "m \<in> set h" by (simp add: h)
  from r show "set rest \<subseteq> set h" using set_remove1_subset by fastforce
qed

lemma py_max_eq: "counts \<noteq> [] \<Longrightarrow> py_max counts = Max (set counts)"
proof -
  assume "counts \<noteq> []"
  then obtain x xs where c: "counts = x # xs" by (cases counts) auto
  have "Max (set (x # xs)) = fold max xs x" by (rule Max.set_eq_fold)
  then show ?thesis by (simp add: py_max_def c)
qed

lemma nd_eq_spec:
  assumes "counts \<noteq> []"
  shows "d + alpha * w + beta * (of_int (counts ! u + counts ! v) / 2 / of_int (max 1 (py_max counts)))
         = d + spec_step_cost alpha beta counts u v w"
  by (simp add: spec_step_cost_def py_max_eq [OF assms])

lemma update_keeps_finite:
  "xs ! i \<noteq> None \<Longrightarrow> (xs[v := Some y]) ! i \<noteq> None"
  by (cases "v < length xs") (auto simp: nth_list_update list_update_beyond)

lemma relax_edges_inv:
  assumes "relax_edges alpha beta counts (max 1 (py_max counts)) d u es s = Inr s'"
    and "search_inv adj counts alpha beta start N s"
    and "counts \<noteq> []"
    and "accumulated adj counts alpha beta start u d"
    and "u < N" and "dist_arr s ! u \<noteq> None"
    and "set es \<subseteq> set (adj_get adj u)"
  shows "search_inv adj counts alpha beta start N s'"
  using assms
proof (induction es arbitrary: s)
  case Nil
  then show ?case by simp
next
  case (Cons e es)
  obtain v w where e: "e = (v, w)" by (cases e)
  let ?nd = "d + alpha * w + beta * (of_int (counts ! u + counts ! v) / 2 / of_int (max 1 (py_max counts)))"
  from Cons.prems(1) have rng: "u < length counts" "v < length counts"
    "v < length (dist_arr s)" "v < length (prev_arr s)"
    by (auto simp: e Let_def split: if_splits)
  from Cons.prems(2) have len: "length (dist_arr s) = N" "length (prev_arr s) = N"
    by (simp_all add: search_inv_def)
  have vw: "(v, w) \<in> set (adj_get adj u)" using Cons.prems(7) by (simp add: e)
  have es: "set es \<subseteq> set (adj_get adj u)" using Cons.prems(7) by simp
  show ?case
  proof (cases "dist_lt ?nd (dist_arr s ! v)")
    case False
    with Cons.prems(1) rng have "relax_edges alpha beta counts (max 1 (py_max counts)) d u es s = Inr s'"
      by (simp add: e Let_def)
    from Cons.IH [OF this Cons.prems(2,3,4,5,6) es] show ?thesis .
  next
    case True
    let ?s1 = "s\<lparr>dist_arr := (dist_arr s)[v := Some ?nd],
                  prev_arr := (prev_arr s)[v := Some u],
                  pq := heappush (pq s) (?nd, v)\<rparr>"
    from True Cons.prems(1) rng have step: "relax_edges alpha beta counts (max 1 (py_max counts)) d u es ?s1 = Inr s'"
      by (simp add: e Let_def)
    have acc: "accumulated adj counts alpha beta start v ?nd"
      unfolding nd_eq_spec [OF Cons.prems(3)]
      by (rule accumulated.along_edge [OF Cons.prems(4) vw])
    have vN: "v < N" using rng len by simp
    have inv1: "search_inv adj counts alpha beta start N ?s1"
      unfolding search_inv_def
    proof (intro conjI allI impI ballI)
      show "length (dist_arr ?s1) = N" using len by simp
      show "length (prev_arr ?s1) = N" using len by simp
      show "start < N" using Cons.prems(2) by (simp add: search_inv_def)
      show "dist_arr ?s1 ! start \<noteq> None"
        using Cons.prems(2) by (simp add: search_inv_def update_keeps_finite)
    next
      fix x assume "x \<in> set (pq ?s1)"
      then have "x = (?nd, v) \<or> x \<in> set (pq s)" by (auto simp: heappush_def)
      then show "snd x < N" using vN Cons.prems(2) by (auto simp: search_inv_def)
      from \<open>x = (?nd, v) \<or> x \<in> set (pq s)\<close> show "dist_arr ?s1 ! snd x \<noteq> None"
      proof
        assume "x = (?nd, v)"
        then show ?thesis using vN len by simp
      next
        assume "x \<in> set (pq s)"
        with Cons.prems(2) have "dist_arr s ! snd x \<noteq> None" by (simp add: search_inv_def)
        then show ?thesis by (simp add: update_keeps_finite)
      qed
    next
      fix x dv assume "x < N" "dist_arr ?s1 ! x = Some dv"
      show "accumulated adj counts alpha beta start x dv"
      proof (cases "x = v")
        case True
        with \<open>dist_arr ?s1 ! x = Some dv\<close> vN len have "dv = ?nd" by simp
        with acc True show ?thesis by simp
      next
        case False
        with \<open>dist_arr ?s1 ! x = Some dv\<close> have "dist_arr s ! x = Some dv" by simp
        with Cons.prems(2) \<open>x < N\<close> show ?thesis by (simp add: search_inv_def)
      qed
    next
      fix x assume x: "x < N" "x \<noteq> start" "dist_arr ?s1 ! x \<noteq> None"
      show "\<exists>u. prev_arr ?s1 ! x = Some u \<and> u < N \<and> dist_arr ?s1 ! u \<noteq> None \<and>
              x \<in> fst ` set (adj_get adj u)"
      proof (cases "x = v")
        case True
        have "v \<in> fst ` set (adj_get adj u)" using vw by force
        moreover have "dist_arr ?s1 ! u \<noteq> None"
          using Cons.prems(6) by (simp add: update_keeps_finite)
        ultimately show ?thesis using True len vN Cons.prems(5)
          by simp
      next
        case False
        with x len have "dist_arr s ! x \<noteq> None" by (simp add: nth_list_update)
        with Cons.prems(2) x obtain u' where
          "prev_arr s ! x = Some u'" "u' < N" "dist_arr s ! u' \<noteq> None"
          "x \<in> fst ` set (adj_get adj u')"
          unfolding search_inv_def by blast
        moreover from this have "dist_arr ?s1 ! u' \<noteq> None"
          by (simp add: update_keeps_finite)
        ultimately show ?thesis using False len by simp
      qed
    qed
    have du: "dist_arr ?s1 ! u \<noteq> None"
      using Cons.prems(6) by (simp add: update_keeps_finite)
    from Cons.IH [OF step inv1 Cons.prems(3,4,5) du es] show ?thesis .
  qed
qed

lemma search_inv_pq_subset:
  assumes "search_inv adj counts alpha beta start N s" and "set rest \<subseteq> set (pq s)"
  shows "search_inv adj counts alpha beta start N (s\<lparr>pq := rest\<rparr>)"
  using assms unfolding search_inv_def by auto

lemma search_loop_inv_aux:
  assumes run: "search_loop adj counts maxc alpha beta target s = Some r"
  shows "\<forall>s'. r = Inr s' \<longrightarrow> maxc = max 1 (py_max counts) \<longrightarrow> counts \<noteq> [] \<longrightarrow>
      search_inv adj counts alpha beta start N s \<longrightarrow>
      search_inv adj counts alpha beta start N s'"
proof (rule search_loop.raw_induct [where P = "\<lambda>adj counts maxc alpha beta target s r.
      \<forall>s'. r = Inr s' \<longrightarrow> maxc = max 1 (py_max counts) \<longrightarrow> counts \<noteq> [] \<longrightarrow>
      search_inv adj counts alpha beta start N s \<longrightarrow>
      search_inv adj counts alpha beta start N s'", OF _ run], goal_cases)
  case (1 search_loop adj counts maxc alpha beta target s r)
  show ?case
  proof (intro allI impI)
    fix s'
    assume r: "r = Inr s'" and mc: "maxc = max 1 (py_max counts)" and ne: "counts \<noteq> []"
      and inv: "search_inv adj counts alpha beta start N s"
    show "search_inv adj counts alpha beta start N s'"
    proof (cases "pq s = []")
      case True
      with 1(2) r inv show ?thesis by simp
    next
      case False
      obtain d u rest where pop: "heappop (pq s) = ((d, u), rest)"
        by (metis prod.exhaust)
      from heappop_mem [OF False pop] have mem: "(d, u) \<in> set (pq s)"
        and sub: "set rest \<subseteq> set (pq s)" by simp_all
      let ?s0 = "s\<lparr>pq := rest\<rparr>"
      have inv0: "search_inv adj counts alpha beta start N ?s0"
        by (rule search_inv_pq_subset [OF inv sub])
      from inv mem have uN: "u < N" and len: "length (dist_arr s) = N"
        by (auto simp: search_inv_def)
      show ?thesis
      proof (cases "dist_arr s ! u \<noteq> Some d")
        case True
        with 1(2) False pop uN len
        have "search_loop adj counts maxc alpha beta target ?s0 = Some r" by simp
        from 1(1) [OF this] r mc ne inv0 show ?thesis by blast
      next
        case stale: False
        then have du: "dist_arr s ! u = Some d" by simp
        show ?thesis
        proof (cases "u = target")
          case True
          with 1(2) False pop uN len du r have "s' = ?s0" by simp
          with inv0 show ?thesis by simp
        next
          case False
          from inv du uN have acc: "accumulated adj counts alpha beta start u d"
            by (simp add: search_inv_def)
          show ?thesis
          proof (cases "relax_edges alpha beta counts maxc d u (adj_get adj u) ?s0")
            case (Inl e)
            with 1(2) \<open>pq s \<noteq> []\<close> pop uN len du False r show ?thesis by simp
          next
            case (Inr s1)
            have "dist_arr ?s0 ! u \<noteq> None" using du by simp
            from relax_edges_inv [OF Inr [unfolded mc] inv0 ne acc uN this]
            have inv1: "search_inv adj counts alpha beta start N s1" by simp
            from 1(2) \<open>pq s \<noteq> []\<close> pop uN len du False Inr
            have "search_loop adj counts maxc alpha beta target s1 = Some r" by simp
            from 1(1) [OF this] r mc ne inv1 show ?thesis by blast
          qed
        qed
      qed
    qed
  qed
qed

lemma search_inv_init:
  assumes "start < N"
  shows "search_inv adj counts alpha beta start N
           \<lparr>dist_arr = (replicate N None)[start := Some 0],
            prev_arr = replicate N None, pq = [(0, start)]\<rparr>"
  using assms
  by (auto simp: search_inv_def nth_list_update intro: accumulated.at_start split: if_splits)

lemma dijkstra_search_inv:
  assumes "dijkstra_search adj nodes counts start target alpha beta = Some (Inr s)"
  shows "search_inv adj counts alpha beta start (length nodes) s"
proof -
  from assms have st: "start < length nodes" and ne: "counts \<noteq> []"
    by (auto simp: dijkstra_search_def Let_def split: if_splits)
  with assms have "search_loop adj counts (max 1 (py_max counts)) alpha beta target
      \<lparr>dist_arr = (replicate (length nodes) None)[start := Some 0],
       prev_arr = replicate (length nodes) None, pq = [(0, start)]\<rparr> = Some (Inr s)"
    by (simp add: dijkstra_search_def Let_def)
  from search_loop_inv_aux [OF this, of start "length nodes"] ne search_inv_init [OF st]
  show ?thesis by blast
qed

lemma route_edges_snoc:
  assumes "route_edges adj xs" and "xs \<noteq> []" and "a \<in> fst ` set (adj_get adj (last xs))"
  shows "route_edges adj (xs @ [a])"
  using assms by (induction adj xs rule: route_edges.induct) auto

lemma reconstruct_chain_aux:
  assumes run: "reconstruct prev start u path = Some res"
  shows "\<forall>r. res = Inr r \<longrightarrow> search_inv adj counts alpha beta start N s \<longrightarrow> prev = prev_arr s \<longrightarrow>
           u < N \<longrightarrow> dist_arr s ! u \<noteq> None \<longrightarrow>
           (\<exists>c. r = path @ c \<and> c \<noteq> [] \<and> hd c = u \<and> last c = start \<and>
                route_edges adj (rev c) \<and> (\<forall>x \<in> set c. x < N))"
proof (rule reconstruct.raw_induct [where P = "\<lambda>prev start u path res.
      \<forall>r. res = Inr r \<longrightarrow> search_inv adj counts alpha beta start N s \<longrightarrow> prev = prev_arr s \<longrightarrow>
           u < N \<longrightarrow> dist_arr s ! u \<noteq> None \<longrightarrow>
           (\<exists>c. r = path @ c \<and> c \<noteq> [] \<and> hd c = u \<and> last c = start \<and>
                route_edges adj (rev c) \<and> (\<forall>x \<in> set c. x < N))", OF _ run], goal_cases)
  case (1 reconstruct prev start u path res)
  show ?case
  proof (intro allI impI)
    fix r
    assume r: "res = Inr r" and inv: "search_inv adj counts alpha beta start N s"
      and pv: "prev = prev_arr s" and uN: "u < N" and fin: "dist_arr s ! u \<noteq> None"
    show "\<exists>c. r = path @ c \<and> c \<noteq> [] \<and> hd c = u \<and> last c = start \<and>
                route_edges adj (rev c) \<and> (\<forall>x \<in> set c. x < N)"
    proof (cases "u = start")
      case True
      with 1(2) r have "r = path @ [u]" by simp
      with True uN show ?thesis by simp
    next
      case False
      from inv uN False fin obtain u' where
        u': "prev_arr s ! u = Some u'" "u' < N" "dist_arr s ! u' \<noteq> None"
        "u \<in> fst ` set (adj_get adj u')"
        unfolding search_inv_def by blast
      from inv have "length (prev_arr s) = N" by (simp add: search_inv_def)
      with 1(2) False uN pv u'(1)
      have "reconstruct prev start u' (path @ [u]) = Some res" by simp
      from 1(1) [OF this] r inv pv u'(2,3) obtain c where
        c: "r = (path @ [u]) @ c" "c \<noteq> []" "hd c = u'" "last c = start"
        "route_edges adj (rev c)" "\<forall>x \<in> set c. x < N"
        by blast
      have "route_edges adj (rev c @ [u])"
        using c(2,3,5) u'(4) by (intro route_edges_snoc) (simp_all add: last_rev)
      with c uN have "r = path @ (u # c) \<and> u # c \<noteq> [] \<and> hd (u # c) = u \<and>
        last (u # c) = start \<and> route_edges adj (rev (u # c)) \<and> (\<forall>x \<in> set (u # c). x < N)"
        by simp
      then show ?thesis by blast
    qed
  qed
qed

lemma dijkstra_weighted_route:
  assumes "dijkstra_weighted adj nodes counts start target alpha beta = Some (Inr (Some p))"
  shows "p \<noteq> [] \<and> hd p = start \<and> last p = target \<and> route_edges adj p \<and>
         (start = target \<longrightarrow> p = [start]) \<and> (\<forall>x \<in> set p. x < length nodes)"
proof -
  from assms obtain s dt r where
    srch: "dijkstra_search adj nodes counts start target alpha beta = Some (Inr s)"
    and tN: "target < length (dist_arr s)" and dt: "dist_arr s ! target = Some dt"
    and rec: "reconstruct (prev_arr s) start target [] = Some (Inr r)" and p: "p = rev r"
    by (auto simp: dijkstra_weighted_def split: option.splits sum.splits if_splits)
  from dijkstra_search_inv [OF srch]
  have inv: "search_inv adj counts alpha beta start (length nodes) s" .
  then have len: "length (dist_arr s) = length nodes" by (simp add: search_inv_def)
  from reconstruct_chain_aux [OF rec, of adj counts alpha beta "length nodes" s] inv tN len dt
  obtain c where c: "r = c" "c \<noteq> []" "hd c = target" "last c = start"
    "route_edges adj (rev c)" "\<forall>x \<in> set c. x < length nodes"
    by auto
  have single: "p = [start]" if "start = target"
  proof -
    from that have "reconstruct (prev_arr s) start target [] = Some (Inr [start])"
      by (simp add: reconstruct.simps)
    with rec have "r = [start]" by simp
    with p show ?thesis by simp
  qed
  from c p single show ?thesis
    by (simp add: hd_rev last_rev)
qed

section \<open>Shortest-path search: it returns\<close>

lemma relax_inv_total: "relax_inv N start d u s \<Longrightarrow> total_inv N start s"
  unfolding relax_inv_def total_inv_def by (meson order_trans)

lemma heap_min_least: "e \<in> set (m # xs) \<Longrightarrow> fst (heap_min m xs) \<le> fst e"
proof (induction xs arbitrary: m e)
  case Nil
  then show ?case by simp
next
  case (Cons x xs)
  let ?m = "if tuple_less x m then x else m"
  have a: "fst ?m \<le> fst m" "fst ?m \<le> fst x"
    by (auto simp: tuple_less_def)
  have b: "fst (heap_min ?m xs) \<le> fst ?m" using Cons.IH [of ?m ?m] by simp
  from Cons.prems consider "e = m" | "e = x" | "e \<in> set xs" by auto
  then show ?case
  proof cases
    case 1
    with a(1) b show ?thesis by (simp del: if_split)
  next
    case 2
    with a(2) b show ?thesis by (simp del: if_split)
  next
    case 3
    then have "e \<in> set (?m # xs)" by simp
    from Cons.IH [OF this] show ?thesis by simp
  qed
qed

lemma heappop_least:
  assumes "h \<noteq> []" and "heappop h = ((d, u), rest)"
  shows "(d, u) \<in> set h" and "rest = remove1 (d, u) h" and "\<forall>e \<in> set h. d \<le> fst e"
proof -
  from assms(1) obtain x xs where h: "h = x # xs" by (cases h) auto
  from assms(2) have m: "(d, u) = heap_min x xs" and r: "rest = remove1 (d, u) h"
    by (auto simp: heappop_def h Let_def)
  from m heap_min_mem [of x xs] show "(d, u) \<in> set h" by (simp add: h)
  from r show "rest = remove1 (d, u) h" .
  show "\<forall>e \<in> set h. d \<le> fst e"
  proof
    fix e assume "e \<in> set h"
    then have "e \<in> set (x # xs)" by (simp add: h)
    from heap_min_least [OF this] m show "d \<le> fst e" by (metis fst_conv)
  qed
qed

lemma fchain_mono:
  assumes "fchain s start x"
    and "\<And>v. settled s v \<Longrightarrow> settled s' v \<and> prev_arr s' ! v = prev_arr s ! v"
  shows "fchain s' start x"
  using assms(1)
proof (induction rule: fchain.induct)
  case fchain_start
  then show ?case using assms(2) by (auto intro: fchain.fchain_start)
next
  case (fchain_step v u)
  from assms(2) [OF fchain_step(2)] fchain_step(3)
  have "settled s' v" "prev_arr s' ! v = Some u" by simp_all
  with fchain_step(1,5) show ?case by (auto intro: fchain.fchain_step)
qed


lemma relax_update_inv:
  assumes ri: "relax_inv N start d u s" and vN: "v < N"
    and lt: "dist_lt nd (dist_arr s ! v)" and dnd: "d \<le> nd"
    and s1: "s1 = s\<lparr>dist_arr := (dist_arr s)[v := Some nd],
                      prev_arr := (prev_arr s)[v := Some u],
                      pq := heappush (pq s) (nd, v)\<rparr>"
  shows "relax_inv N start d u s1" and "\<And>x. settled s x \<Longrightarrow> settled s1 x"
proof -
  from ri have core: "core_inv N start s" and low: "\<forall>e \<in> set (pq s). d \<le> fst e"
    and sb: "\<And>x dx. settled s x \<Longrightarrow> dist_arr s ! x = Some dx \<Longrightarrow> dx \<le> d"
    and fu: "fchain s start u"
    unfolding relax_inv_def by blast+
  from core have len: "length (dist_arr s) = N" "length (prev_arr s) = N"
    and st: "start < N" "dist_arr s ! start \<noteq> None" and dis: "distinct (pq s)"
    and ent: "\<And>e. e \<in> set (pq s) \<Longrightarrow>
                snd e < N \<and> (\<exists>d'. dist_arr s ! snd e = Some d' \<and> d' \<le> fst e)"
    and pc: "\<And>x. x < N \<Longrightarrow> x \<noteq> start \<Longrightarrow> dist_arr s ! x \<noteq> None \<Longrightarrow>
                \<exists>u'. prev_arr s ! x = Some u' \<and> fchain s start u'"
    unfolding core_inv_def by blast+
  have d1: "dist_arr s1 = (dist_arr s)[v := Some nd]"
    and p1: "prev_arr s1 = (prev_arr s)[v := Some u]"
    and q1: "pq s1 = (nd, v) # pq s"
    by (simp_all add: s1 heappush_def)
  have dv1: "dist_arr s1 ! v = Some nd" using vN len by (simp add: d1)
  have dx1: "dist_arr s1 ! x = dist_arr s ! x" if "x \<noteq> v" for x
    using that by (simp add: d1)
  have px1: "prev_arr s1 ! x = prev_arr s ! x" if "x \<noteq> v" for x
    using that by (simp add: p1)
  have nsv: "\<not> settled s v"
  proof
    assume sv: "settled s v"
    then obtain dv where dv: "dist_arr s ! v = Some dv" by (auto simp: settled_def)
    from sb [OF sv dv] dnd have "dv \<le> nd" by simp
    with lt dv show False by (simp add: dist_lt_def)
  qed
  have live1: "live s1 x = live s x" if "x \<noteq> v" for x
    using that by (auto simp: live_def dx1 q1)
  have nsv1: "\<not> settled s1 v"
    by (auto simp: settled_def live_def dv1 q1)
  have keep: "settled s1 x \<and> prev_arr s1 ! x = prev_arr s ! x" if "settled s x" for x
  proof -
    from that nsv have "x \<noteq> v" by auto
    with that show ?thesis by (simp add: settled_def live1 dx1 px1 d1)
  qed
  then show "\<And>x. settled s x \<Longrightarrow> settled s1 x" by simp
  have conv: "settled s x" if "settled s1 x" for x
  proof -
    from that nsv1 have "x \<noteq> v" by auto
    with that show ?thesis by (simp add: settled_def live1 dx1 d1)
  qed
  have mono: "fchain s1 start y" if "fchain s start y" for y
    using that keep by (rule fchain_mono)
  have fresh: "(nd, v) \<notin> set (pq s)"
  proof
    assume "(nd, v) \<in> set (pq s)"
    from ent [OF this] obtain d' where "dist_arr s ! v = Some d'" "d' \<le> nd" by auto
    with lt show False by (simp add: dist_lt_def)
  qed
  have core1: "core_inv N start s1"
    unfolding core_inv_def
  proof (intro conjI ballI allI impI)
    show "length (dist_arr s1) = N" "length (prev_arr s1) = N" using len by (simp_all add: d1 p1)
    show "start < N" by (rule st)
    show "dist_arr s1 ! start \<noteq> None" using st(2) by (simp add: d1 update_keeps_finite)
    show "distinct (pq s1)" using dis fresh by (simp add: q1)
  next
    fix e assume e: "e \<in> set (pq s1)"
    then consider "e = (nd, v)" | "e \<in> set (pq s)" by (auto simp: q1)
    then have "snd e < N \<and> (\<exists>d'. dist_arr s1 ! snd e = Some d' \<and> d' \<le> fst e)"
    proof cases
      case 1
      then show ?thesis using vN dv1 by simp
    next
      case 2
      from ent [OF 2] obtain d' where e': "snd e < N" "dist_arr s ! snd e = Some d'" "d' \<le> fst e"
        by auto
      show ?thesis
      proof (cases "snd e = v")
        case True
        with e' lt have "nd \<le> fst e" by (simp add: dist_lt_def)
        with True dv1 e'(1) show ?thesis by simp
      next
        case False
        with e' show ?thesis by (simp add: dx1)
      qed
    qed
    then show "snd e < N" "\<exists>d'. dist_arr s1 ! snd e = Some d' \<and> d' \<le> fst e" by simp_all
  next
    fix x assume x: "x < N" "x \<noteq> start" "dist_arr s1 ! x \<noteq> None"
    show "\<exists>u'. prev_arr s1 ! x = Some u' \<and> fchain s1 start u'"
    proof (cases "x = v")
      case True
      have "prev_arr s1 ! v = Some u" using vN len by (simp add: p1)
      with True mono [OF fu] show ?thesis by simp
    next
      case False
      with x have "dist_arr s ! x \<noteq> None" by (simp add: dx1)
      from pc [OF x(1,2) this] obtain u' where "prev_arr s ! x = Some u'" "fchain s start u'"
        by auto
      with False mono show ?thesis by (auto simp: px1)
    qed
  qed
  show "relax_inv N start d u s1"
    unfolding relax_inv_def
  proof (intro conjI ballI allI impI)
    show "core_inv N start s1" by (rule core1)
    show "fchain s1 start u" by (rule mono [OF fu])
  next
    fix e assume "e \<in> set (pq s1)"
    then show "d \<le> fst e" using low dnd by (auto simp: q1)
  next
    fix x dx assume x: "settled s1 x" "dist_arr s1 ! x = Some dx"
    from x(1) nsv1 have "x \<noteq> v" by auto
    with x(2) have "dist_arr s ! x = Some dx" by (simp add: dx1)
    from sb [OF conv [OF x(1)] this] show "dx \<le> d" .
  qed
qed


lemma relax_edges_total:
  assumes "relax_inv N start d u s"
    and "0 \<le> alpha" and "0 \<le> beta" and "1 \<le> maxc" and "\<forall>c \<in> set counts. 0 \<le> c"
    and "u < length counts"
    and "\<forall>e \<in> set es. fst e < N \<and> fst e < length counts \<and> 0 \<le> snd e"
  shows "\<exists>s'. relax_edges alpha beta counts maxc d u es s = Inr s' \<and>
              relax_inv N start d u s' \<and> (\<forall>x. settled s x \<longrightarrow> settled s' x)"
  using assms(1,7)
proof (induction es arbitrary: s)
  case Nil
  then show ?case by simp
next
  case (Cons e es)
  obtain v w where e: "e = (v, w)" by (cases e)
  from Cons.prems(2) have v: "v < N" "v < length counts" "0 \<le> w"
    and rest: "\<forall>e \<in> set es. fst e < N \<and> fst e < length counts \<and> 0 \<le> snd e"
    by (simp_all add: e)
  from Cons.prems(1) have len: "length (dist_arr s) = N" "length (prev_arr s) = N"
    by (simp_all add: relax_inv_def core_inv_def)
  let ?traffic = "real_of_int (counts ! u + counts ! v) / 2"
  let ?nd = "d + alpha * w + beta * (?traffic / real_of_int maxc)"
  have "0 \<le> counts ! u" "0 \<le> counts ! v"
    using assms(5,6) v(2) by simp_all
  then have t: "0 \<le> ?traffic / real_of_int maxc" using assms(4) by simp
  have "0 \<le> beta * (?traffic / real_of_int maxc)"
    by (rule mult_nonneg_nonneg [OF assms(3) t])
  moreover have "0 \<le> alpha * w"
    by (rule mult_nonneg_nonneg [OF assms(2) v(3)])
  ultimately have dnd: "d \<le> ?nd" by linarith
  show ?case
  proof (cases "dist_lt ?nd (dist_arr s ! v)")
    case False
    then have "relax_edges alpha beta counts maxc d u (e # es) s
        = relax_edges alpha beta counts maxc d u es s"
      using assms(6) v len by (simp add: e Let_def)
    with Cons.IH [OF Cons.prems(1) rest] show ?thesis by simp
  next
    case True
    define s1 where "s1 = s\<lparr>dist_arr := (dist_arr s)[v := Some ?nd],
                      prev_arr := (prev_arr s)[v := Some u],
                      pq := heappush (pq s) (?nd, v)\<rparr>"
    from True have step: "relax_edges alpha beta counts maxc d u (e # es) s
        = relax_edges alpha beta counts maxc d u es s1"
      using assms(6) v len by (simp add: e Let_def s1_def)
    note up = relax_update_inv [OF Cons.prems(1) v(1) True dnd s1_def]
    from Cons.IH [OF up(1) rest] obtain s' where
      "relax_edges alpha beta counts maxc d u es s1 = Inr s'" "relax_inv N start d u s'"
      "\<forall>x. settled s1 x \<longrightarrow> settled s' x"
      by blast
    with step up(2) show ?thesis by auto
  qed
qed

lemma set_remove1_distinct: "distinct xs \<Longrightarrow> set (remove1 x xs) = set xs - {x}"
  by simp

lemma core_inv_shrink:
  assumes core: "core_inv N start s" and sub: "set rest \<subseteq> set (pq s)" and dis: "distinct rest"
    and fc: "\<And>y. fchain s start y \<Longrightarrow> fchain (s\<lparr>pq := rest\<rparr>) start y"
  shows "core_inv N start (s\<lparr>pq := rest\<rparr>)"
  unfolding core_inv_def
proof (intro conjI ballI allI impI)
  let ?s = "s\<lparr>pq := rest\<rparr>"
  show "length (dist_arr ?s) = N" "length (prev_arr ?s) = N" "start < N"
    "dist_arr ?s ! start \<noteq> None"
    using core by (simp_all add: core_inv_def)
  show "distinct (pq ?s)" using dis by simp
next
  fix e assume "e \<in> set (pq (s\<lparr>pq := rest\<rparr>))"
  with sub have e: "e \<in> set (pq s)" by auto
  with core show "snd e < N" unfolding core_inv_def by blast
  from core e show "\<exists>d'. dist_arr (s\<lparr>pq := rest\<rparr>) ! snd e = Some d' \<and> d' \<le> fst e"
    unfolding core_inv_def by simp
next
  fix v assume "v < N" "v \<noteq> start" "dist_arr (s\<lparr>pq := rest\<rparr>) ! v \<noteq> None"
  with core obtain u where "prev_arr s ! v = Some u" "fchain s start u"
    unfolding core_inv_def by auto
  with fc show "\<exists>u. prev_arr (s\<lparr>pq := rest\<rparr>) ! v = Some u \<and> fchain (s\<lparr>pq := rest\<rparr>) start u"
    by auto
qed

lemma pop_stale_inv:
  assumes ti: "total_inv N start s" and ne: "pq s \<noteq> []"
    and pop: "heappop (pq s) = ((d, u), rest)" and stale: "dist_arr s ! u \<noteq> Some d"
  shows "total_inv N start (s\<lparr>pq := rest\<rparr>)" and "pending N (s\<lparr>pq := rest\<rparr>) = pending N s"
    and "length rest < length (pq s)"
proof -
  let ?s = "s\<lparr>pq := rest\<rparr>"
  note hp = heappop_least [OF ne pop]
  from ti have core: "core_inv N start s"
    and sb: "\<And>x dx e. settled s x \<Longrightarrow> dist_arr s ! x = Some dx \<Longrightarrow> e \<in> set (pq s) \<Longrightarrow> dx \<le> fst e"
    unfolding total_inv_def by blast+
  from core have dis: "distinct (pq s)" by (simp add: core_inv_def)
  have rs: "set rest = set (pq s) - {(d, u)}" using hp(2) dis by simp
  have live_eq: "live ?s x = live s x" for x
    using stale by (auto simp: live_def rs)
  have set_eq: "settled ?s x = settled s x" for x
    by (simp add: settled_def live_eq)
  have fc: "fchain ?s start y" if "fchain s start y" for y
    using that by (rule fchain_mono) (simp add: set_eq)
  have "core_inv N start ?s"
    by (rule core_inv_shrink [OF core]) (use dis hp(2) fc in \<open>auto simp: rs\<close>)
  moreover have "dx \<le> fst e" if "settled ?s x" "dist_arr ?s ! x = Some dx" "e \<in> set (pq ?s)" for x dx e
    using sb [of x dx e] that by (simp add: set_eq rs)
  ultimately show "total_inv N start ?s" unfolding total_inv_def by blast
  show "pending N ?s = pending N s" by (simp add: pending_def set_eq)
  from hp(1,2) show "length rest < length (pq s)"
    by (simp add: length_remove1) (cases "pq s"; simp)
qed

lemma pop_fresh_inv:
  assumes ti: "total_inv N start s" and ne: "pq s \<noteq> []"
    and pop: "heappop (pq s) = ((d, u), rest)" and fresh: "dist_arr s ! u = Some d"
  shows "relax_inv N start d u (s\<lparr>pq := rest\<rparr>)"
    and "settled (s\<lparr>pq := rest\<rparr>) u" and "\<not> settled s u" and "u < N"
    and "\<And>x. settled s x \<Longrightarrow> settled (s\<lparr>pq := rest\<rparr>) x"
proof -
  let ?s = "s\<lparr>pq := rest\<rparr>"
  note hp = heappop_least [OF ne pop]
  from ti have core: "core_inv N start s"
    and sb: "\<And>x dx e. settled s x \<Longrightarrow> dist_arr s ! x = Some dx \<Longrightarrow> e \<in> set (pq s) \<Longrightarrow> dx \<le> fst e"
    unfolding total_inv_def by blast+
  from core have dis: "distinct (pq s)" and len: "length (dist_arr s) = N"
    and ent: "\<And>e. e \<in> set (pq s) \<Longrightarrow> snd e < N"
    and st: "start < N"
    and pc: "\<And>x. x < N \<Longrightarrow> x \<noteq> start \<Longrightarrow> dist_arr s ! x \<noteq> None \<Longrightarrow>
                \<exists>u'. prev_arr s ! x = Some u' \<and> fchain s start u'"
    by (auto simp: core_inv_def)
  have rs: "set rest = set (pq s) - {(d, u)}" using hp(2) dis by simp
  from ent [OF hp(1)] show uN: "u < N" by simp
  show nsu: "\<not> settled s u" using hp(1) fresh by (auto simp: settled_def live_def)
  show su: "settled ?s u" using fresh uN len by (auto simp: settled_def live_def rs)
  have live_sub: "live ?s x \<Longrightarrow> live s x" for x
    by (auto simp: live_def rs)
  show keep: "\<And>x. settled s x \<Longrightarrow> settled ?s x"
    using live_sub by (auto simp: settled_def)
  have conv: "settled s x" if "settled ?s x" "x \<noteq> u" for x
    using that by (auto simp: settled_def live_def rs)
  have fc: "fchain ?s start y" if "fchain s start y" for y
    using that by (rule fchain_mono) (simp add: keep)
  have core': "core_inv N start ?s"
    by (rule core_inv_shrink [OF core]) (use dis hp(2) fc in \<open>auto simp: rs\<close>)
  have fu: "fchain ?s start u"
  proof (cases "u = start")
    case True
    with su show ?thesis by (auto intro: fchain.fchain_start)
  next
    case False
    from pc [OF uN False] fresh obtain u' where "prev_arr s ! u = Some u'" "fchain s start u'"
      by auto
    with False su fc show ?thesis by (auto intro: fchain.fchain_step)
  qed
  have "dx \<le> d" if "settled ?s x" "dist_arr ?s ! x = Some dx" for x dx
  proof (cases "x = u")
    case True
    with that fresh show ?thesis by simp
  next
    case False
    from sb [OF conv [OF that(1) False] _ hp(1)] that(2) show ?thesis by simp
  qed
  moreover have "d \<le> fst e" if "e \<in> set (pq ?s)" for e
    using that hp(3) by (simp add: rs)
  ultimately show "relax_inv N start d u ?s"
    unfolding relax_inv_def using core' fu by blast
qed


lemma pending_finite: "finite (pending N s)"
  by (simp add: pending_def)

lemma search_loop_total:
  assumes "0 \<le> alpha" and "0 \<le> beta" and "1 \<le> maxc" and "\<forall>c \<in> set counts. 0 \<le> c"
    and "N \<le> length counts"
    and "\<forall>u < N. \<forall>e \<in> set (adj_get adj u). fst e < N \<and> 0 \<le> snd e"
    and "total_inv N start s"
  shows "\<exists>s'. search_loop adj counts maxc alpha beta target s = Some (Inr s') \<and>
              total_inv N start s'"
proof -
  have "wf (inv_image (less_than <*lex*> less_than)
          (\<lambda>s :: search. (card (pending N s), length (pq s))))"
    by (intro wf_inv_image wf_lex_prod wf_less_than)
  then show ?thesis using assms(7)
  proof (induction s rule: wf_induct_rule)
    case (less s)
    note unfold = search_loop.simps [of adj counts maxc alpha beta target s]
    show ?case
    proof (cases "pq s = []")
      case True
      with unfold less.prems show ?thesis by simp
    next
      case False
      obtain d u rest where pop: "heappop (pq s) = ((d, u), rest)"
        by (metis prod.exhaust)
      from less.prems have len: "length (dist_arr s) = N"
        by (simp add: total_inv_def core_inv_def)
      from heappop_least(1) [OF False pop] less.prems have uN: "u < N"
        unfolding total_inv_def core_inv_def by fastforce
      let ?s0 = "s\<lparr>pq := rest\<rparr>"
      show ?thesis
      proof (cases "dist_arr s ! u = Some d")
        case stale: False
        note ps = pop_stale_inv [OF less.prems False pop stale]
        from unfold False pop uN len stale
        have eq: "search_loop adj counts maxc alpha beta target s
                  = search_loop adj counts maxc alpha beta target ?s0"
          by simp
        have "(?s0, s) \<in> inv_image (less_than <*lex*> less_than)
                (\<lambda>s :: search. (card (pending N s), length (pq s)))"
          using ps(2,3) by simp
        from less.IH [OF this ps(1)] eq show ?thesis by simp
      next
        case True
        note pf = pop_fresh_inv [OF less.prems False pop True]
        show ?thesis
        proof (cases "u = target")
          case target: True
          from unfold False pop uN len True target
          have "search_loop adj counts maxc alpha beta target s = Some (Inr ?s0)"
            by simp
          with relax_inv_total [OF pf(1)] show ?thesis by simp
        next
          case other: False
          have edges: "\<forall>e \<in> set (adj_get adj u). fst e < N \<and> fst e < length counts \<and> 0 \<le> snd e"
            using assms(5,6) uN by fastforce
          have uc: "u < length counts" using uN assms(5) by simp
          from relax_edges_total [OF pf(1) assms(1,2,3,4) uc edges] obtain s1 where
            s1: "relax_edges alpha beta counts maxc d u (adj_get adj u) ?s0 = Inr s1"
            "relax_inv N start d u s1" "\<forall>x. settled ?s0 x \<longrightarrow> settled s1 x"
            by blast
          from unfold False pop uN len True other s1(1)
          have eq: "search_loop adj counts maxc alpha beta target s
                    = search_loop adj counts maxc alpha beta target s1"
            by simp
          have sub: "pending N s1 \<subseteq> pending N s"
            using pf(5) s1(3) by (auto simp: pending_def)
          have "u \<in> pending N s" using pf(3,4) by (simp add: pending_def)
          moreover have "u \<notin> pending N s1" using pf(2) s1(3) by (simp add: pending_def)
          ultimately have "pending N s1 \<subset> pending N s" using sub by auto
          then have "card (pending N s1) < card (pending N s)"
            by (rule psubset_card_mono [OF pending_finite])
          then have "(s1, s) \<in> inv_image (less_than <*lex*> less_than)
                (\<lambda>s :: search. (card (pending N s), length (pq s)))"
            by simp
          from less.IH [OF this relax_inv_total [OF s1(2)]] eq show ?thesis by simp
        qed
      qed
    qed
  qed
qed


lemma total_inv_init:
  assumes "start < N"
  shows "total_inv N start
           \<lparr>dist_arr = (replicate N None)[start := Some 0],
            prev_arr = replicate N None, pq = [(0, start)]\<rparr>"
proof -
  let ?s = "\<lparr>dist_arr = (replicate N None)[start := Some 0],
            prev_arr = replicate N None, pq = [(0, start)]\<rparr>"
  have d: "dist_arr ?s ! v = (if v = start then Some 0 else None)" if "v < N" for v
    using that assms by (simp add: nth_list_update)
  have ns: "\<not> settled ?s v" for v
  proof
    assume sv: "settled ?s v"
    then have "v < N" by (simp add: settled_def)
    from d [OF this] sv show False by (auto simp: settled_def live_def split: if_splits)
  qed
  have "core_inv N start ?s"
    unfolding core_inv_def using assms d by (auto split: if_splits)
  then show ?thesis unfolding total_inv_def using ns by blast
qed

lemma dijkstra_search_total:
  assumes "well_formed adj nodes counts alpha beta" and "start < length nodes"
  shows "\<exists>s. dijkstra_search adj nodes counts start target alpha beta = Some (Inr s) \<and>
             total_inv (length nodes) start s"
proof -
  from assms have wf: "0 \<le> alpha" "0 \<le> beta" "length nodes \<le> length counts"
    "\<forall>c \<in> set counts. 0 \<le> c"
    "\<forall>u < length nodes. \<forall>e \<in> set (adj_get adj u). fst e < length nodes \<and> 0 \<le> snd e"
    by (simp_all add: well_formed_def)
  from wf(3) assms(2) have ne: "counts \<noteq> []" by auto
  have mc: "1 \<le> max 1 (py_max counts)" by simp
  from search_loop_total [OF wf(1,2) mc wf(4,3,5) total_inv_init [OF assms(2)]]
  show ?thesis using assms(2) ne by (simp add: dijkstra_search_def Let_def)
qed

lemma reconstruct_total:
  assumes "fchain s start u" and "length (prev_arr s) = length (dist_arr s)"
  shows "\<exists>r. reconstruct (prev_arr s) start u path = Some (Inr r)"
  using assms(1)
proof (induction arbitrary: path rule: fchain.induct)
  case fchain_start
  show ?case by (subst reconstruct.simps) simp
next
  case (fchain_step v u)
  from fchain_step(2) assms(2) have "v < length (prev_arr s)" by (simp add: settled_def)
  with fchain_step(1,3)
  have "reconstruct (prev_arr s) start v path = reconstruct (prev_arr s) start u (path @ [v])"
    by (subst reconstruct.simps) simp
  with fchain_step.IH [of "path @ [v]"] show ?case by simp
qed

lemma dijkstra_weighted_total:
  assumes "well_formed adj nodes counts alpha beta"
    and "start < length nodes" and "target < length nodes"
  shows "\<exists>r. dijkstra_weighted adj nodes counts start target alpha beta = Some (Inr r)"
proof -
  from dijkstra_search_total [OF assms(1,2)] obtain s where
    srch: "dijkstra_search adj nodes counts start target alpha beta = Some (Inr s)"
    and ti: "total_inv (length nodes) start s"
    by blast
  from ti have len: "length (dist_arr s) = length nodes" "length (prev_arr s) = length nodes"
    and pc: "\<And>v. v < length nodes \<Longrightarrow> v \<noteq> start \<Longrightarrow> dist_arr s ! v \<noteq> None \<Longrightarrow>
               \<exists>u. prev_arr s ! v = Some u \<and> fchain s start u"
    unfolding total_inv_def core_inv_def by blast+
  show ?thesis
  proof (cases "dist_arr s ! target")
    case None
    with srch assms(3) len show ?thesis by (simp add: dijkstra_weighted_def)
  next
    case (Some dt)
    have "\<exists>r. reconstruct (prev_arr s) start target [] = Some (Inr r)"
    proof (cases "target = start")
      case True
      then show ?thesis by (subst reconstruct.simps) simp
    next
      case False
      from pc [OF assms(3) False] Some obtain u where
        u: "prev_arr s ! target = Some u" "fchain s start u" by auto
      from False u(1) assms(3) len
      have "reconstruct (prev_arr s) start target [] = reconstruct (prev_arr s) start u [target]"
        by (subst reconstruct.simps) simp
      with reconstruct_total [OF u(2), of "[target]"] len show ?thesis by simp
    qed
    then obtain r where "reconstruct (prev_arr s) start target [] = Some (Inr r)" by blast
    with srch Some assms(3) len show ?thesis by (simp add: dijkstra_weighted_def)
  qed
qed

section \<open>Shortest-path search: the claims\<close>



text \<open>
  Claim C9. A route returned by \<open>dijkstra_weighted\<close> is non-empty, begins at
  \<open>start\<close>, ends at \<open>target\<close>, joins each two consecutive junctions by an edge of
  the graph, and is \<open>[start]\<close> when \<open>start = target\<close>.
\<close>

theorem dijkstra_route_shape:
  assumes "dijkstra_weighted adj nodes counts start target alpha beta = Some (Inr (Some p))"
  shows "p \<noteq> [] \<and> hd p = start \<and> last p = target \<and> route_edges adj p \<and>
         (start = target \<longrightarrow> p = [start])"
  using dijkstra_weighted_route [OF assms] by simp

theorem dijkstra_route_shape_witness:
  "dijkstra_weighted [0 \<mapsto> [(1, 10)], 1 \<mapsto> [(0, 10), (2, 10)], 2 \<mapsto> [(1, 10)]]
      [(0, 0), (10, 0), (10, 10)] [0, 0, 0] 0 2 1 2 = Some (Inr (Some [0, 1, 2])) \<and>
   hd [0, 1, 2] = (0::nat) \<and> last [0, 1, 2] = (2::nat) \<and>
   route_edges [0 \<mapsto> [(1, 10)], 1 \<mapsto> [(0, 10), (2, 10)], 2 \<mapsto> [(1, 10)]] [0, 1, 2]"
proof -
  have run: "dijkstra_weighted [0 \<mapsto> [(1, 10)], 1 \<mapsto> [(0, 10), (2, 10)], 2 \<mapsto> [(1, 10)]]
      [(0, 0), (10, 0), (10, 10)] [0, 0, 0] 0 2 1 2 = Some (Inr (Some [0, 1, 2]))"
    by code_simp
  from dijkstra_route_shape [OF run] run show ?thesis by simp
qed

text \<open>
  Claim C5. \<open>dijkstra_weighted\<close> returns \<open>None\<close> exactly when its search ends with
  \<open>dist[target]\<close> still infinite, and then the spawning caller builds the ambulance on
  the two-junction route \<open>[start, target]\<close>. On well-formed input the search does end,
  and the solve returns \<open>None\<close> when \<open>dist[target]\<close> is infinite and a route when it
  is finite.
\<close>

theorem dijkstra_failure_fallback:
  "(dijkstra_weighted adj nodes counts start target alpha beta = Some (Inr None)) =
     (\<exists>s. dijkstra_search adj nodes counts start target alpha beta = Some (Inr s) \<and>
          target < length nodes \<and> dist_arr s ! target = None) \<and>
   (dijkstra_weighted adj nodes counts start target default_alpha default_beta = Some (Inr None) \<longrightarrow>
      spawn_ambulance adj nodes counts target start =
        Some (Inr \<lparr>amb_start = start, amb_path = [start, target], amb_pos_idx = 0, amb_done = False\<rparr>)) \<and>
   (well_formed adj nodes counts alpha beta \<longrightarrow> start < length nodes \<longrightarrow> target < length nodes \<longrightarrow>
      (\<exists>s. dijkstra_search adj nodes counts start target alpha beta = Some (Inr s) \<and>
           (case dist_arr s ! target of
              None \<Rightarrow> dijkstra_weighted adj nodes counts start target alpha beta = Some (Inr None)
            | Some dt \<Rightarrow>
                (\<exists>p. dijkstra_weighted adj nodes counts start target alpha beta
                        = Some (Inr (Some p))))))"
proof -
  have len: "length (dist_arr s) = length nodes"
    if "dijkstra_search adj nodes counts start target alpha beta = Some (Inr s)" for s
    using dijkstra_search_inv [OF that] by (simp add: search_inv_def)
  have iff: "(dijkstra_weighted adj nodes counts start target alpha beta = Some (Inr None)) =
     (\<exists>s. dijkstra_search adj nodes counts start target alpha beta = Some (Inr s) \<and>
          target < length nodes \<and> dist_arr s ! target = None)"
    using len
    by (auto simp: dijkstra_weighted_def split: option.splits sum.splits if_splits)
  have total: "\<exists>s. dijkstra_search adj nodes counts start target alpha beta = Some (Inr s) \<and>
           (case dist_arr s ! target of
              None \<Rightarrow> dijkstra_weighted adj nodes counts start target alpha beta = Some (Inr None)
            | Some dt \<Rightarrow>
                (\<exists>p. dijkstra_weighted adj nodes counts start target alpha beta
                        = Some (Inr (Some p))))"
    if wf: "well_formed adj nodes counts alpha beta" and st: "start < length nodes"
      and tg: "target < length nodes"
  proof -
    from dijkstra_search_total [OF wf st] obtain s where
      s: "dijkstra_search adj nodes counts start target alpha beta = Some (Inr s)" by blast
    from dijkstra_weighted_total [OF wf st tg] obtain r where
      r: "dijkstra_weighted adj nodes counts start target alpha beta = Some (Inr r)" by blast
    show ?thesis
    proof (cases "dist_arr s ! target")
      case None
      with iff s tg have "dijkstra_weighted adj nodes counts start target alpha beta = Some (Inr None)"
        by blast
      with s None show ?thesis by auto
    next
      case (Some dt)
      with iff s have "dijkstra_weighted adj nodes counts start target alpha beta \<noteq> Some (Inr None)"
        by auto
      with r obtain p where "r = Some p" by (cases r) auto
      with r s Some show ?thesis by auto
    qed
  qed
  from iff total show ?thesis
    by (simp add: spawn_ambulance_def bind_res_def)
qed

theorem dijkstra_failure_fallback_witness:
  "well_formed [0 \<mapsto> [(1, 10)], 1 \<mapsto> [(0, 10)]] [(0, 0), (10, 0), (10, 10)] [0, 0, 0]
      default_alpha default_beta \<and>
   dijkstra_weighted [0 \<mapsto> [(1, 10)], 1 \<mapsto> [(0, 10)]] [(0, 0), (10, 0), (10, 10)] [0, 0, 0] 0 2
      default_alpha default_beta = Some (Inr None) \<and>
   dijkstra_search [0 \<mapsto> [(1, 10)], 1 \<mapsto> [(0, 10)]] [(0, 0), (10, 0), (10, 10)] [0, 0, 0] 0 2
      default_alpha default_beta
     = Some (Inr \<lparr>dist_arr = [Some 0, Some 10, None], prev_arr = [None, Some 0, None], pq = []\<rparr>) \<and>
   spawn_ambulance [0 \<mapsto> [(1, 10)], 1 \<mapsto> [(0, 10)]] [(0, 0), (10, 0), (10, 10)] [0, 0, 0] 2 0 =
     Some (Inr \<lparr>amb_start = 0, amb_path = [0, 2], amb_pos_idx = 0, amb_done = False\<rparr>) \<and>
   (\<exists>p. dijkstra_weighted [0 \<mapsto> [(1, 10)], 1 \<mapsto> [(0, 10)]] [(0, 0), (10, 0), (10, 10)] [0, 0, 0] 0 1
      default_alpha default_beta = Some (Inr (Some p)))"
proof -
  let ?adj = "[0 \<mapsto> [(1, 10)], 1 \<mapsto> [(0, 10)]] :: graph"
  let ?nodes = "[(0, 0), (10, 0), (10, 10)] :: (int \<times> int) list"
  have wf: "well_formed ?adj ?nodes [0, 0, 0] default_alpha default_beta"
    by (auto simp: well_formed_def adj_get_def default_alpha_def default_beta_def)
  have run: "dijkstra_weighted ?adj ?nodes [0, 0, 0] 0 2 default_alpha default_beta = Some (Inr None)"
    by code_simp
  have srch: "dijkstra_search ?adj ?nodes [0, 0, 0] 0 2 default_alpha default_beta
     = Some (Inr \<lparr>dist_arr = [Some 0, Some 10, None], prev_arr = [None, Some 0, None], pq = []\<rparr>)"
    by code_simp
  have srch1: "dijkstra_search ?adj ?nodes [0, 0, 0] 0 1 default_alpha default_beta
     = Some (Inr \<lparr>dist_arr = [Some 0, Some 10, None], prev_arr = [None, Some 0, None], pq = []\<rparr>)"
    by code_simp
  note th = dijkstra_failure_fallback [of ?adj ?nodes "[0, 0, 0]" 0 2 default_alpha default_beta]
  from th run
  have sp: "spawn_ambulance ?adj ?nodes [0, 0, 0] 2 0 =
     Some (Inr \<lparr>amb_start = 0, amb_path = [0, 2], amb_pos_idx = 0, amb_done = False\<rparr>)"
    by blast
  note th1 = dijkstra_failure_fallback [of ?adj ?nodes "[0, 0, 0]" 0 1 default_alpha default_beta,
      THEN conjunct2, THEN conjunct2, rule_format, OF wf]
  have "\<exists>p. dijkstra_weighted ?adj ?nodes [0, 0, 0] 0 1 default_alpha default_beta
      = Some (Inr (Some p))"
    using th1 srch1 by auto
  with wf run srch sp show ?thesis by (intro conjI)
qed

section \<open>Graph construction: properties\<close>

lemma euclid_sym: "euclid a b = euclid b a"
  by (simp add: euclid_def power2_commute)

lemma node_map_fold_bound:
  assumes "fold (\<lambda>(i, p) m. m(p \<mapsto> i)) (enumerate k xs) m0 pt = Some i"
    and "\<And>j. m0 pt = Some j \<Longrightarrow> j < k + length xs"
  shows "i < k + length xs"
  using assms
proof (induction xs arbitrary: k m0)
  case Nil
  then show ?case by simp
next
  case (Cons x xs)
  from Cons.prems(1) have "fold (\<lambda>(i, p) m. m(p \<mapsto> i)) (enumerate (Suc k) xs) (m0(x \<mapsto> k)) pt = Some i"
    by (simp only: enumerate_simps fold.simps o_apply prod.case)
  moreover have "j < Suc k + length xs" if "(m0(x \<mapsto> k)) pt = Some j" for j
    using that Cons.prems(2) [of j] by (auto split: if_splits)
  ultimately have "i < Suc k + length xs" by (rule Cons.IH)
  then show ?case by simp
qed

lemma node_map_bound: "node_map nodes pt = Some i \<Longrightarrow> i < length nodes"
  using node_map_fold_bound [of 0 nodes Map.empty pt i] by (simp add: node_map_def)

lemma nearest_fold_bound:
  assumes "fst (fold (\<lambda>(i, p) (best, bd).
                  let d = (fst p - fst pt)\<^sup>2 + (snd p - snd pt)\<^sup>2
                  in if d < bd then (Some i, d) else (best, bd))
            (enumerate k xs) acc) = Some i"
    and "\<And>j. fst acc = Some j \<Longrightarrow> j < k + length xs"
  shows "i < k + length xs"
  using assms
proof (induction xs arbitrary: k acc)
  case Nil
  then show ?case by simp
next
  case (Cons x xs)
  obtain best bd where acc: "acc = (best, bd)" by (cases acc)
  let ?acc' = "(let d = (fst x - fst pt)\<^sup>2 + (snd x - snd pt)\<^sup>2
                in if d < bd then (Some k, d) else (best, bd))"
  from Cons.prems(1) have "fst (fold (\<lambda>(i, p) (best, bd).
                  let d = (fst p - fst pt)\<^sup>2 + (snd p - snd pt)\<^sup>2
                  in if d < bd then (Some i, d) else (best, bd))
            (enumerate (Suc k) xs) ?acc') = Some i"
    by (simp add: acc)
  moreover have "j < Suc k + length xs" if "fst ?acc' = Some j" for j
    using that Cons.prems(2) by (auto simp: acc Let_def split: if_splits)
  ultimately have "i < Suc k + length xs" by (rule Cons.IH)
  then show ?case by simp
qed

lemma nearest_scan_bound: "nearest_scan nodes pt = Some i \<Longrightarrow> i < length nodes"
  using nearest_fold_bound [of pt 0 nodes "(None, 1000000000)" i]
  by (simp add: nearest_scan_def)

lemma find_nearest_bound: "find_nearest_node_idx nodes pt = Some i \<Longrightarrow> i < length nodes"
  by (auto simp: find_nearest_node_idx_def node_map_bound nearest_scan_bound split: option.splits)

lemma adj_get_add_edge:
  "a \<noteq> b \<Longrightarrow> adj_get (add_edge adj a b w) x =
     (if x = a then adj_get adj a @ [(b, w)]
      else if x = b then adj_get adj b @ [(a, w)]
      else adj_get adj x)"
  by (auto simp: add_edge_def adj_get_def Let_def)

lemma graph_ok_add_edge:
  assumes "graph_ok nodes adj" and "a \<noteq> b" and "a < length nodes" and "b < length nodes"
  shows "graph_ok nodes (add_edge adj a b (euclid (nodes ! a) (nodes ! b)))"
  using assms unfolding graph_ok_def
  by (auto simp: adj_get_add_edge split: if_splits) (metis euclid_sym)+

lemma build_edges_ok:
  "graph_ok nodes adj \<Longrightarrow> graph_ok nodes (build_edges nodes polylines adj)"
proof (induction polylines arbitrary: adj)
  case Nil
  then show ?case by simp
next
  case (Cons poly rest)
  show ?case
  proof (cases "yields_edge nodes poly")
    case False
    then have "build_edges nodes (poly # rest) adj = build_edges nodes rest adj"
      by (auto simp: yields_edge_def split: option.splits)
    with Cons show ?thesis by simp
  next
    case True
    then obtain a b where ab: "find_nearest_node_idx nodes (hd poly) = Some a"
      "find_nearest_node_idx nodes (last poly) = Some b" "a \<noteq> b" "2 \<le> length poly"
      by (auto simp: yields_edge_def)
    then have "build_edges nodes (poly # rest) adj =
        build_edges nodes rest (add_edge adj a b (euclid (nodes ! a) (nodes ! b)))"
      by simp
    moreover have "graph_ok nodes (add_edge adj a b (euclid (nodes ! a) (nodes ! b)))"
      using Cons.prems ab find_nearest_bound by (intro graph_ok_add_edge) auto
    ultimately show ?thesis using Cons.IH by simp
  qed
qed

lemma build_edges_filter:
  "build_edges nodes polylines adj = build_edges nodes (filter (yields_edge nodes) polylines) adj"
proof (induction polylines arbitrary: adj)
  case Nil
  then show ?case by simp
next
  case (Cons poly rest)
  show ?case
  proof (cases "yields_edge nodes poly")
    case False
    then have "build_edges nodes (poly # rest) adj = build_edges nodes rest adj"
      by (auto simp: yields_edge_def split: option.splits)
    with False Cons show ?thesis by simp
  next
    case True
    then obtain a b where ab: "find_nearest_node_idx nodes (hd poly) = Some a"
      "find_nearest_node_idx nodes (last poly) = Some b" "a \<noteq> b" "2 \<le> length poly"
      by (auto simp: yields_edge_def)
    with True Cons show ?thesis by simp
  qed
qed

lemma adj_get_empty: "adj_get Map.empty x = []"
  by (simp add: adj_get_def)

lemma empty_graph_ok: "graph_ok nodes Map.empty"
  by (simp add: graph_ok_def adj_get_def)

lemma euclid_nonneg: "0 \<le> euclid a b"
  by (simp add: euclid_def)

lemma build_graph_well_formed:
  assumes "length nodes \<le> length counts" and "\<forall>c \<in> set counts. 0 \<le> c"
  shows "well_formed (build_graph nodes polylines) nodes counts default_alpha default_beta"
proof -
  have "graph_ok nodes (build_graph nodes polylines)"
    unfolding build_graph_def by (rule build_edges_ok [OF empty_graph_ok])
  then have "fst e < length nodes \<and> 0 \<le> snd e"
    if "e \<in> set (adj_get (build_graph nodes polylines) u)" for u e
  proof -
    obtain b w where e: "e = (b, w)" by (cases e)
    with that \<open>graph_ok nodes (build_graph nodes polylines)\<close>
    have "b < length nodes" "w = euclid (nodes ! u) (nodes ! b)"
      unfolding graph_ok_def by blast+
    with e euclid_nonneg show ?thesis by simp
  qed
  with assms show ?thesis
    by (simp add: well_formed_def default_alpha_def default_beta_def)
qed

text \<open>
  Claim C6. In the graph built by \<open>build_graph\<close> every entry \<open>(b, w)\<close> in the list of
  a junction \<open>a\<close> has \<open>a \<noteq> b\<close>, both indices among the junctions, and \<open>w\<close> the
  Euclidean distance between the positions of \<open>a\<close> and \<open>b\<close>; the graph is the one built
  from the polylines that have at least two points and whose end points snap to different
  junctions, so a polyline with fewer than two points, or with both end points at one
  junction, adds no edge.
\<close>

theorem build_graph_edges:
  "(\<forall>a b w. (b, w) \<in> set (adj_get (build_graph nodes polylines) a) \<longrightarrow>
      a \<noteq> b \<and> a < length nodes \<and> b < length nodes \<and> w = euclid (nodes ! a) (nodes ! b)) \<and>
   build_graph nodes polylines = build_graph nodes (filter (yields_edge nodes) polylines) \<and>
   (\<forall>poly. length poly < 2 \<longrightarrow> \<not> yields_edge nodes poly) \<and>
   (\<forall>poly. find_nearest_node_idx nodes (hd poly) = find_nearest_node_idx nodes (last poly) \<longrightarrow>
      \<not> yields_edge nodes poly) \<and>
   (\<forall>poly adj. \<not> yields_edge nodes poly \<longrightarrow> build_edges nodes [poly] adj = adj)"
proof -
  have "graph_ok nodes (build_graph nodes polylines)"
    unfolding build_graph_def by (rule build_edges_ok [OF empty_graph_ok])
  moreover have "build_edges nodes [poly] adj = adj" if "\<not> yields_edge nodes poly" for poly adj
    using that build_edges_filter [of nodes "[poly]" adj] by simp
  ultimately show ?thesis
    using build_edges_filter [of nodes polylines Map.empty]
    unfolding graph_ok_def build_graph_def yields_edge_def by auto
qed

theorem build_graph_edges_witness:
  "(1, 5) \<in> set (adj_get (build_graph [(0, 0), (3, 4)] [[(0, 0), (1, 1), (3, 4)], [(3, 4)], [(0, 0), (1, 0)]]) 0) \<and>
   (0::nat) \<noteq> 1 \<and> euclid ([(0, 0), (3, 4)] ! 0) ([(0, 0), (3, 4)] ! 1) = 5 \<and>
   length [(3::int, 4::int)] < 2 \<and> \<not> yields_edge [(0, 0), (3, 4)] [(3, 4)] \<and>
   find_nearest_node_idx [(0, 0), (3, 4)] (hd [(0, 0), (1, 0)])
     = find_nearest_node_idx [(0, 0), (3, 4)] (last [(0, 0), (1, 0)]) \<and>
   \<not> yields_edge [(0, 0), (3, 4)] [(0, 0), (1, 0)] \<and>
   build_graph [(0, 0), (3, 4)] [[(0, 0), (1, 1), (3, 4)], [(3, 4)], [(0, 0), (1, 0)]]
     = build_graph [(0, 0), (3, 4)] [[(0, 0), (1, 1), (3, 4)]]"
proof -
  let ?nodes = "[(0::int, 0::int), (3, 4)]"
  let ?polys = "[[(0::int, 0::int), (1, 1), (3, 4)], [(3, 4)], [(0, 0), (1, 0)]]"
  note th = build_graph_edges [of ?nodes ?polys]
  have snap: "find_nearest_node_idx ?nodes (0, 0) = Some 0"
    "find_nearest_node_idx ?nodes (3, 4) = Some 1"
    "find_nearest_node_idx ?nodes (1, 0) = Some 0"
    by (simp_all add: find_nearest_node_idx_def node_map_def nearest_scan_def enumerate_eq_zip)
  have mem: "(1, 5) \<in> set (adj_get (build_graph ?nodes ?polys) 0)"
    by (simp add: build_graph_def snap adj_get_add_edge euclid_def adj_get_empty)
  from th mem have "(0::nat) \<noteq> 1 \<and> (5::real) = euclid (?nodes ! 0) (?nodes ! 1)"
    by blast
  moreover have short: "length [(3::int, 4::int)] < 2" by simp
  moreover from th short have "\<not> yields_edge ?nodes [(3, 4)]" by blast
  moreover have same: "find_nearest_node_idx ?nodes (hd [(0, 0), (1, 0)])
     = find_nearest_node_idx ?nodes (last [(0, 0), (1, 0)])"
    by (simp add: snap)
  moreover from th same have "\<not> yields_edge ?nodes [(0, 0), (1, 0)]" by blast
  moreover have "filter (yields_edge ?nodes) ?polys = [[(0, 0), (1, 1), (3, 4)]]"
    by (simp add: yields_edge_def snap)
  with th have "build_graph ?nodes ?polys = build_graph ?nodes [[(0, 0), (1, 1), (3, 4)]]"
    by simp
  ultimately show ?thesis using mem by simp
qed

section \<open>Runtime loop: invariants\<close>

lemma bind_res_simps:
  "bind_res None f = None"
  "bind_res (Some (Inl e)) f = Some (Inl e)"
  "bind_res (Some (Inr x)) f = f x"
  by (simp_all add: bind_res_def)

lemma bind_res_Inr:
  "bind_res m f = Some (Inr y) \<Longrightarrow> \<exists>x. m = Some (Inr x) \<and> f x = Some (Inr y)"
  by (auto simp: bind_res_def split: option.splits sum.splits)

lemma replan_spec: "replan adj nodes counts target t a = spec_replan adj nodes counts target t a"
proof (cases "REPLAN_INTERVAL dvd t \<and> amb_pos_idx a + 1 < length (amb_path a)")
  case False
  then show ?thesis
    by (auto simp: replan_def spec_replan_def mod_eq_0_iff_dvd)
next
  case True
  then have c: "t mod REPLAN_INTERVAL = 0 \<and> int (amb_pos_idx a) < int (length (amb_path a)) - 1"
    by (auto simp: mod_eq_0_iff_dvd)
  let ?solve = "dijkstra_weighted adj nodes counts (amb_path a ! amb_pos_idx a) target
                  default_alpha default_beta"
  have l: "replan adj nodes counts target t a =
      bind_res ?solve (\<lambda>newp. Some (Inr (case newp of None \<Rightarrow> a
         | Some p \<Rightarrow> if p \<noteq> [] then a\<lparr>amb_path := p, amb_pos_idx := 0\<rparr> else a)))"
    unfolding replan_def using c by simp
  have r: "spec_replan adj nodes counts target t a =
      (case ?solve of None \<Rightarrow> None | Some (Inl e) \<Rightarrow> Some (Inl e)
       | Some (Inr None) \<Rightarrow> Some (Inr a)
       | Some (Inr (Some p)) \<Rightarrow> Some (Inr (a\<lparr>amb_path := p, amb_pos_idx := 0\<rparr>)))"
    unfolding spec_replan_def using True by simp
  have ne: "p \<noteq> []" if "?solve = Some (Inr (Some p))" for p
    using dijkstra_weighted_route [OF that] by simp
  show ?thesis
  proof (cases ?solve)
    case None
    then show ?thesis by (simp only: l r bind_res_def option.case)
  next
    case (Some res)
    show ?thesis
    proof (cases res)
      case (Inl e)
      with Some show ?thesis by (simp only: l r bind_res_def option.case sum.case)
    next
      case (Inr newp)
      show ?thesis
      proof (cases newp)
        case None
        with Some Inr have "?solve = Some (Inr None)" by simp
        then show ?thesis by (simp only: l r bind_res_def option.case sum.case)
      next
        case (Some p)
        with \<open>?solve = Some res\<close> Inr have sv: "?solve = Some (Inr (Some p))" by simp
        from ne [OF sv] show ?thesis
          by (simp only: l r sv bind_res_def option.case sum.case if_True not_False_eq_True)
      qed
    qed
  qed
qed

lemma replan_cases:
  assumes "replan adj nodes counts target t a = Some (Inr a1)"
  shows "a1 = a \<or> (\<exists>p. p \<noteq> [] \<and> a1 = a\<lparr>amb_path := p, amb_pos_idx := 0\<rparr>)"
proof (cases "t mod REPLAN_INTERVAL = 0 \<and> int (amb_pos_idx a) < int (length (amb_path a)) - 1")
  case False
  from assms have "a = a1"
    unfolding replan_def if_not_P [OF False] by simp
  then show ?thesis by simp
next
  case True
  from assms have "bind_res
             (dijkstra_weighted adj nodes counts (amb_path a ! amb_pos_idx a) target
                default_alpha default_beta)
             (\<lambda>newp. Some (Inr (case newp of
                                   None \<Rightarrow> a
                                 | Some p \<Rightarrow>
                                     if p \<noteq> [] then a\<lparr>amb_path := p, amb_pos_idx := 0\<rparr>
                                     else a))) = Some (Inr a1)"
    unfolding replan_def if_P [OF True] .
  from bind_res_Inr [OF this] obtain newp where
    a1: "a1 = (case newp of None \<Rightarrow> a
               | Some p \<Rightarrow> if p \<noteq> [] then a\<lparr>amb_path := p, amb_pos_idx := 0\<rparr> else a)"
    by auto
  show ?thesis
  proof (cases newp)
    case None
    with a1 show ?thesis by simp
  next
    case (Some p)
    with a1 show ?thesis by (cases "p = []") auto
  qed
qed

lemma replan_ok:
  assumes "replan adj nodes counts target t a = Some (Inr a1)" and "amb_ok a" and "\<not> amb_done a"
  shows "amb_ok a1 \<and> \<not> amb_done a1"
  using replan_cases [OF assms(1)] assms(2,3) by (auto simp: amb_ok_def)

lemma advance_ok: "amb_ok a \<Longrightarrow> amb_ok (advance a)"
  by (auto simp: amb_ok_def advance_def)

lemma step_ambulances_nth:
  assumes "step_ambulances adj nodes counts target t ai ambs frames = Some (Inr (ambs', frames'))"
  shows "length ambs' = length ambs \<and>
         (\<forall>i < length ambs.
            if amb_done (ambs ! i) then ambs' ! i = ambs ! i
            else (\<exists>a1. replan adj nodes counts target t (ambs ! i) = Some (Inr a1) \<and>
                       ambs' ! i = advance a1))"
  using assms
proof (induction ambs arbitrary: ai frames ambs' frames')
  case Nil
  then show ?case by simp
next
  case (Cons a rest)
  show ?case
  proof (cases "amb_done a")
    case True
    with Cons.prems obtain rest' where
      r: "step_ambulances adj nodes counts target t (ai + 1) rest frames = Some (Inr (rest', frames'))"
      and e: "ambs' = a # rest'"
      by (auto dest!: bind_res_Inr)
    from Cons.IH [OF r] e True show ?thesis
      by (auto simp: nth_Cons split: nat.splits)
  next
    case False
    with Cons.prems obtain a' frames1 rest' where
      s: "step_ambulance adj nodes counts target t ai a frames = Some (Inr (a', frames1))"
      and r: "step_ambulances adj nodes counts target t (ai + 1) rest frames1 = Some (Inr (rest', frames'))"
      and e: "ambs' = a' # rest'"
      by (auto dest!: bind_res_Inr)
    from s obtain a1 where "replan adj nodes counts target t a = Some (Inr a1)" "a' = advance a1"
      by (auto simp: step_ambulance_def Let_def dest!: bind_res_Inr split: if_splits)
    with Cons.IH [OF r] e False show ?thesis
      by (auto simp: nth_Cons split: nat.splits)
  qed
qed


lemma step_ambulances_ok:
  assumes "step_ambulances adj nodes counts target t ai ambs frames = Some (Inr (ambs', frames'))"
    and "list_all amb_ok ambs"
  shows "list_all amb_ok ambs'"
proof -
  from step_ambulances_nth [OF assms(1)] have len: "length ambs' = length ambs"
    and nth: "\<And>i. i < length ambs \<Longrightarrow>
            (if amb_done (ambs ! i) then ambs' ! i = ambs ! i
             else (\<exists>a1. replan adj nodes counts target t (ambs ! i) = Some (Inr a1) \<and>
                       ambs' ! i = advance a1))"
    by blast+
  have "amb_ok (ambs' ! i)" if "i < length ambs'" for i
  proof -
    from that len have i: "i < length ambs" by simp
    with assms(2) have ok: "amb_ok (ambs ! i)" by (simp add: list_all_length)
    show ?thesis
    proof (cases "amb_done (ambs ! i)")
      case True
      with nth [OF i] ok show ?thesis by simp
    next
      case False
      with nth [OF i] obtain a1 where
        "replan adj nodes counts target t (ambs ! i) = Some (Inr a1)" "ambs' ! i = advance a1"
        by auto
      with replan_ok [OF this(1) ok False] show ?thesis by (simp add: advance_ok)
    qed
  qed
  then show ?thesis by (simp add: list_all_length)
qed

lemma decrement_nth:
  assumes "decrement counts idx = Inr counts'"
  shows "idx < length counts \<and> length counts' = length counts \<and>
         (\<forall>j < length counts.
            counts' ! j = (if j = idx \<and> 0 < counts ! j then counts ! j - 1 else counts ! j))"
  using assms by (auto simp: decrement_def nth_list_update split: if_splits)

lemma decrement_passed_nth:
  assumes "decrement_passed ambs counts = Inr counts'"
  shows "length counts' = length counts \<and>
         (\<forall>j < length counts.
            counts' ! j =
              (if counts ! j \<le> 0 then counts ! j
               else max 0 (counts ! j - int (count_list (map passed_junction ambs) j))))"
  using assms
proof (induction ambs arbitrary: counts)
  case Nil
  then show ?case by auto
next
  case (Cons a rest)
  from Cons.prems obtain c1 where
    d: "decrement counts (passed_junction a) = Inr c1"
    and r: "decrement_passed rest c1 = Inr counts'"
    by (auto simp: passed_junction_def split: if_splits sum.splits)
  from decrement_nth [OF d] have len1: "length c1 = length counts"
    and n1: "\<And>j. j < length counts \<Longrightarrow>
      c1 ! j = (if j = passed_junction a \<and> 0 < counts ! j then counts ! j - 1 else counts ! j)"
    by simp_all
  from Cons.IH [OF r] have len2: "length counts' = length c1"
    and n2: "\<And>j. j < length c1 \<Longrightarrow>
      counts' ! j = (if c1 ! j \<le> 0 then c1 ! j
                     else max 0 (c1 ! j - int (count_list (map passed_junction rest) j)))"
    by simp_all
  have "counts' ! j =
          (if counts ! j \<le> 0 then counts ! j
           else max 0 (counts ! j - int (count_list (map passed_junction (a # rest)) j)))"
    if "j < length counts" for j
    using n1 [OF that] n2 [of j] that len1 by (auto simp: max_def)
  with len1 len2 show ?case by simp
qed

lemma tick_effect:
  assumes "tick adj nodes target st = Some (Inr st')"
  shows "\<exists>frames. step_ambulances adj nodes (counts_vals st) target (ticks st + 1) 0
                    (ambulances st) (amb_frames st) = Some (Inr (ambulances st', frames)) \<and>
                  decrement_passed (ambulances st') (counts_vals st) = Inr (counts_vals st') \<and>
                  ticks st' = ticks st + 1"
proof -
  from assms obtain ambs frames where
    s: "step_ambulances adj nodes (counts_vals st) target (ticks st + 1) 0
          (ambulances st) (amb_frames st) = Some (Inr (ambs, frames))"
    and d: "(case decrement_passed ambs (counts_vals st) of
               Inl e \<Rightarrow> Some (Inl e)
             | Inr counts' \<Rightarrow>
                 Some (Inr \<lparr>ticks = ticks st + 1, ambulances = ambs,
                            counts_vals = counts', amb_frames = frames\<rparr>)) = Some (Inr st')"
    unfolding tick_def by (auto dest!: bind_res_Inr)
  from d obtain counts' where "decrement_passed ambs (counts_vals st) = Inr counts'"
    "st' = \<lparr>ticks = ticks st + 1, ambulances = ambs, counts_vals = counts', amb_frames = frames\<rparr>"
    by (auto split: sum.splits)
  with s show ?thesis by auto
qed


lemma done_passed_junction:
  assumes "amb_ok a" and "amb_done a"
  shows "passed_junction a = amb_path a ! (length (amb_path a) - 2)"
proof -
  from assms have "amb_pos_idx a = length (amb_path a) - 1" by (auto simp: amb_ok_def)
  then have "passed_index a = length (amb_path a) - 2"
    by (simp add: passed_index_def nat_diff_distrib')
  then show ?thesis by (simp add: passed_junction_def)
qed

lemma tick_ambulances:
  assumes "tick adj nodes target st = Some (Inr st')" and "list_all amb_ok (ambulances st)"
  shows "length (ambulances st') = length (ambulances st)"
    and "list_all amb_ok (ambulances st')"
    and "\<And>i. i < length (ambulances st) \<Longrightarrow> amb_done (ambulances st ! i) \<Longrightarrow>
           ambulances st' ! i = ambulances st ! i"
    and "\<And>i. i < length (ambulances st) \<Longrightarrow> \<not> amb_done (ambulances st ! i) \<Longrightarrow>
           \<exists>a1. replan adj nodes (counts_vals st) target (ticks st + 1) (ambulances st ! i)
                  = Some (Inr a1) \<and> ambulances st' ! i = advance a1"
proof -
  from tick_effect [OF assms(1)] obtain frames where
    s: "step_ambulances adj nodes (counts_vals st) target (ticks st + 1) 0
          (ambulances st) (amb_frames st) = Some (Inr (ambulances st', frames))"
    by blast
  from step_ambulances_nth [OF s] show "length (ambulances st') = length (ambulances st)"
    by simp
  from step_ambulances_ok [OF s assms(2)] show "list_all amb_ok (ambulances st')" .
  show "ambulances st' ! i = ambulances st ! i"
    if "i < length (ambulances st)" "amb_done (ambulances st ! i)" for i
    using step_ambulances_nth [OF s] that by simp
  show "\<exists>a1. replan adj nodes (counts_vals st) target (ticks st + 1) (ambulances st ! i)
                  = Some (Inr a1) \<and> ambulances st' ! i = advance a1"
    if "i < length (ambulances st)" "\<not> amb_done (ambulances st ! i)" for i
    using step_ambulances_nth [OF s] that by simp
qed

lemma run_ticks_done_fixed:
  assumes "run_ticks n adj nodes target st = Some (Inr st')" and "list_all amb_ok (ambulances st)"
  shows "length (ambulances st') = length (ambulances st) \<and>
         (\<forall>i < length (ambulances st). amb_done (ambulances st ! i) \<longrightarrow>
            ambulances st' ! i = ambulances st ! i)"
  using assms
proof (induction n arbitrary: st)
  case 0
  then show ?case by simp
next
  case (Suc n)
  show ?case
  proof (cases "list_all amb_done (ambulances st)")
    case True
    with Suc.prems show ?thesis by simp
  next
    case False
    with Suc.prems(1) obtain st1 where
      t: "tick adj nodes target st = Some (Inr st1)"
      and r: "run_ticks n adj nodes target st1 = Some (Inr st')"
      by (auto dest!: bind_res_Inr)
    note ta = tick_ambulances [OF t Suc.prems(2)]
    from Suc.IH [OF r ta(2)] ta(1) ta(3) show ?thesis by auto
  qed
qed

lemma decrement_passed_nonneg:
  assumes "decrement_passed ambs counts = Inr counts'" and "\<forall>c \<in> set counts. 0 \<le> c"
  shows "\<forall>c \<in> set counts'. 0 \<le> c"
proof -
  from decrement_passed_nth [OF assms(1)] have len: "length counts' = length counts"
    and nth: "\<And>j. j < length counts \<Longrightarrow>
            counts' ! j =
              (if counts ! j \<le> 0 then counts ! j
               else max 0 (counts ! j - int (count_list (map passed_junction ambs) j)))"
    by simp_all
  have "0 \<le> counts' ! j" if "j < length counts'" for j
  proof -
    from that len have j: "j < length counts" by simp
    with assms(2) have "0 \<le> counts ! j" by simp
    with nth [OF j] show ?thesis by (simp split: if_splits)
  qed
  then show ?thesis by (auto simp: in_set_conv_nth)
qed

lemma tick_nonneg:
  assumes "tick adj nodes target st = Some (Inr st')" and "\<forall>c \<in> set (counts_vals st). 0 \<le> c"
  shows "\<forall>c \<in> set (counts_vals st'). 0 \<le> c"
  using tick_effect [OF assms(1)] decrement_passed_nonneg assms(2) by blast

lemma run_ticks_nonneg:
  assumes "run_ticks n adj nodes target st = Some (Inr st')"
    and "\<forall>c \<in> set (counts_vals st). 0 \<le> c"
  shows "\<forall>c \<in> set (counts_vals st'). 0 \<le> c"
  using assms
proof (induction n arbitrary: st)
  case 0
  then show ?case by simp
next
  case (Suc n)
  show ?case
  proof (cases "list_all amb_done (ambulances st)")
    case True
    with Suc.prems show ?thesis by simp
  next
    case False
    with Suc.prems(1) obtain st1 where
      t: "tick adj nodes target st = Some (Inr st1)"
      and r: "run_ticks n adj nodes target st1 = Some (Inr st')"
      by (auto dest!: bind_res_Inr)
    from Suc.IH [OF r tick_nonneg [OF t Suc.prems(2)]] show ?thesis .
  qed
qed

lemma decrement_nonneg:
  assumes "decrement counts idx = Inr counts'" and "\<forall>c \<in> set counts. 0 \<le> c"
  shows "(\<forall>c \<in> set counts'. 0 \<le> c) \<and> (counts ! idx = 0 \<longrightarrow> counts' = counts)"
proof -
  from decrement_nth [OF assms(1)] have len: "length counts' = length counts"
    and nth: "\<And>j. j < length counts \<Longrightarrow>
       counts' ! j = (if j = idx \<and> 0 < counts ! j then counts ! j - 1 else counts ! j)"
    by simp_all
  have "0 \<le> counts' ! j" if "j < length counts'" for j
  proof -
    from that len have j: "j < length counts" by simp
    with assms(2) have "0 \<le> counts ! j" by simp
    with nth [OF j] show ?thesis by (simp split: if_splits)
  qed
  then have "\<forall>c \<in> set counts'. 0 \<le> c" by (auto simp: in_set_conv_nth)
  moreover have "counts' = counts" if "counts ! idx = 0"
    using assms(1) that by (auto simp: decrement_def split: if_splits)
  ultimately show ?thesis by simp
qed

lemma depart_nonneg: "0 \<le> c \<Longrightarrow> 0 \<le> depart ph c \<and> (c = 0 \<longrightarrow> depart ph c = 0)"
  by (auto simp: depart_def DEPART_WHEN_GREEN_def)

lemma stage0_tick_counts:
  assumes "list_all (\<lambda>lc. 0 \<le> snd lc) js"
  shows "list_all (\<lambda>lc. 0 \<le> snd lc) (stage0_tick arrivals js)"
proof -
  have "0 \<le> snd (junction_tick a lc)" if "lc \<in> set js" for a lc
  proof -
    from assms that have "0 \<le> snd lc" by (simp add: list_all_iff)
    then have "0 \<le> arrive a (snd lc)" by (simp add: arrive_def)
    then show ?thesis
      by (cases lc) (simp add: junction_tick_def depart_nonneg)
  qed
  then show ?thesis
    unfolding stage0_tick_def list_all_iff
    by (auto simp: in_set_enumerate_eq) (metis nth_mem snd_conv)
qed

lemma stage0_run_counts:
  "list_all (\<lambda>lc. 0 \<le> snd lc) js \<Longrightarrow> list_all (\<lambda>lc. 0 \<le> snd lc) (stage0_run arrs js)"
  by (induction arrs arbitrary: js) (auto simp: stage0_tick_counts)

section \<open>Runtime loop: it returns\<close>

lemma replan_total:
  assumes wf: "well_formed adj nodes counts default_alpha default_beta"
    and tg: "target < length nodes" and ok: "amb_ok a" and rg: "in_range (length nodes) a"
  shows "\<exists>a1. replan adj nodes counts target t a = Some (Inr a1) \<and> in_range (length nodes) a1"
proof (cases "REPLAN_INTERVAL dvd t \<and> amb_pos_idx a + 1 < length (amb_path a)")
  case False
  have "replan adj nodes counts target t a = Some (Inr a)"
    unfolding replan_spec spec_replan_def if_not_P [OF False] ..
  with rg show ?thesis by simp
next
  case True
  then have "amb_path a ! amb_pos_idx a \<in> set (amb_path a)" by simp
  with rg have "amb_path a ! amb_pos_idx a < length nodes" by (simp add: in_range_def)
  from dijkstra_weighted_total [OF wf this tg] obtain r where
    r: "dijkstra_weighted adj nodes counts (amb_path a ! amb_pos_idx a) target
          default_alpha default_beta = Some (Inr r)" by blast
  show ?thesis
  proof (cases r)
    case None
    with r True have "replan adj nodes counts target t a = Some (Inr a)"
      by (simp add: replan_spec spec_replan_def)
    with rg show ?thesis by simp
  next
    case (Some p)
    with r True have "replan adj nodes counts target t a
        = Some (Inr (a\<lparr>amb_path := p, amb_pos_idx := 0\<rparr>))"
      by (simp add: replan_spec spec_replan_def)
    moreover from dijkstra_weighted_route [OF r [unfolded Some]]
    have "in_range (length nodes) (a\<lparr>amb_path := p, amb_pos_idx := 0\<rparr>)"
      by (simp add: in_range_def)
    ultimately show ?thesis by simp
  qed
qed

lemma advance_in_range: "in_range N a \<Longrightarrow> in_range N (advance a)"
  by (simp add: in_range_def advance_def)

lemma step_ambulance_total:
  assumes wf: "well_formed adj nodes counts default_alpha default_beta"
    and tg: "target < length nodes" and ok: "amb_ok a" and nd: "\<not> amb_done a"
    and rg: "in_range (length nodes) a" and ai: "ai < length frames"
  shows "\<exists>a' frames'. step_ambulance adj nodes counts target t ai a frames
              = Some (Inr (a', frames')) \<and>
            amb_ok a' \<and> in_range (length nodes) a' \<and> length frames' = length frames"
proof -
  from replan_total [OF wf tg ok rg] obtain a1 where
    a1: "replan adj nodes counts target t a = Some (Inr a1)" "in_range (length nodes) a1"
    by blast
  from replan_ok [OF a1(1) ok nd] have ok1: "amb_ok a1" by simp
  let ?a2 = "advance a1"
  from advance_ok [OF ok1] have ok2: "amb_ok ?a2" .
  from advance_in_range [OF a1(2)] have rg2: "in_range (length nodes) ?a2" .
  from ok2 have pos: "amb_pos_idx ?a2 < length (amb_path ?a2)" by (simp add: amb_ok_def)
  then have "amb_path ?a2 ! amb_pos_idx ?a2 \<in> set (amb_path ?a2)" by simp
  with rg2 have cur: "amb_path ?a2 ! amb_pos_idx ?a2 < length nodes" by (simp add: in_range_def)
  from a1(1) pos cur ai
  have "step_ambulance adj nodes counts target t ai a frames
      = Some (Inr (?a2, frames[ai := frames ! ai
            @ [frame_word (nodes ! (amb_path ?a2 ! amb_pos_idx ?a2))]]))"
    by (simp add: step_ambulance_def bind_res_simps Let_def)
  with ok2 rg2 show ?thesis by simp
qed

lemma step_ambulances_total:
  assumes wf: "well_formed adj nodes counts default_alpha default_beta"
    and tg: "target < length nodes"
  shows "list_all amb_ok ambs \<Longrightarrow> list_all (in_range (length nodes)) ambs \<Longrightarrow>
         ai + length ambs \<le> length frames \<Longrightarrow>
         \<exists>ambs' frames'. step_ambulances adj nodes counts target t ai ambs frames
              = Some (Inr (ambs', frames')) \<and>
            list_all (in_range (length nodes)) ambs' \<and> length frames' = length frames"
proof (induction ambs arbitrary: ai frames)
  case Nil
  then show ?case by simp
next
  case (Cons a rest)
  from Cons.prems have ok: "amb_ok a" "list_all amb_ok rest"
    and rg: "in_range (length nodes) a" "list_all (in_range (length nodes)) rest"
    and ai: "ai < length frames" "(ai + 1) + length rest \<le> length frames"
    by simp_all
  show ?case
  proof (cases "amb_done a")
    case True
    from Cons.IH [OF ok(2) rg(2) ai(2)] obtain rest' frames' where
      "step_ambulances adj nodes counts target t (ai + 1) rest frames = Some (Inr (rest', frames'))"
      "list_all (in_range (length nodes)) rest'" "length frames' = length frames"
      by blast
    with True rg(1) show ?thesis by (simp add: bind_res_simps)
  next
    case False
    from step_ambulance_total [OF wf tg ok(1) False rg(1) ai(1)] obtain a' frames1 where
      a': "step_ambulance adj nodes counts target t ai a frames = Some (Inr (a', frames1))"
      "in_range (length nodes) a'" "length frames1 = length frames"
      by blast
    from ai(2) a'(3) have "(ai + 1) + length rest \<le> length frames1" by simp
    from Cons.IH [OF ok(2) rg(2) this] obtain rest' frames' where
      "step_ambulances adj nodes counts target t (ai + 1) rest frames1 = Some (Inr (rest', frames'))"
      "list_all (in_range (length nodes)) rest'" "length frames' = length frames1"
      by blast
    with False a' show ?thesis by (simp add: bind_res_simps)
  qed
qed

lemma decrement_passed_total:
  "list_all amb_ok ambs \<Longrightarrow> list_all (in_range N) ambs \<Longrightarrow> N \<le> length counts \<Longrightarrow>
   \<exists>counts'. decrement_passed ambs counts = Inr counts'"
proof (induction ambs arbitrary: counts)
  case Nil
  then show ?case by simp
next
  case (Cons a rest)
  from Cons.prems have ok: "amb_ok a" and rg: "in_range N a" by simp_all
  from ok have pi: "passed_index a < length (amb_path a)"
    by (auto simp: amb_ok_def passed_index_def)
  then have "amb_path a ! passed_index a \<in> set (amb_path a)" by simp
  with rg Cons.prems(3) have idx: "amb_path a ! passed_index a < length counts"
    by (auto simp: in_range_def)
  then obtain c1 where c1: "decrement counts (amb_path a ! passed_index a) = Inr c1"
    by (simp add: decrement_def)
  from decrement_nth [OF c1] Cons.prems(3) have "N \<le> length c1" by simp
  from Cons.IH [OF _ _ this] Cons.prems(1,2) obtain counts' where
    "decrement_passed rest c1 = Inr counts'" by auto
  with pi c1 show ?case by simp
qed

lemma tick_total:
  assumes "run_ok adj nodes target st"
  shows "\<exists>st'. tick adj nodes target st = Some (Inr st') \<and> run_ok adj nodes target st'"
proof -
  from assms have wf: "well_formed adj nodes (counts_vals st) default_alpha default_beta"
    and tg: "target < length nodes" and ok: "list_all amb_ok (ambulances st)"
    and rg: "list_all (in_range (length nodes)) (ambulances st)"
    and fr: "0 + length (ambulances st) \<le> length (amb_frames st)"
    by (simp_all add: run_ok_def)
  from step_ambulances_total [OF wf tg ok rg fr] obtain ambs' frames' where
    st: "step_ambulances adj nodes (counts_vals st) target (ticks st + 1) 0
           (ambulances st) (amb_frames st) = Some (Inr (ambs', frames'))"
    and rg': "list_all (in_range (length nodes)) ambs'"
    and fl: "length frames' = length (amb_frames st)"
    by blast
  from step_ambulances_ok [OF st ok] have ok': "list_all amb_ok ambs'" .
  from step_ambulances_nth [OF st] have al: "length ambs' = length (ambulances st)" by simp
  from wf have cl: "length nodes \<le> length (counts_vals st)"
    and nn: "\<forall>c \<in> set (counts_vals st). 0 \<le> c"
    by (simp_all add: well_formed_def)
  from decrement_passed_total [OF ok' rg' cl] obtain counts' where
    dp: "decrement_passed ambs' (counts_vals st) = Inr counts'" by blast
  let ?st' = "\<lparr>ticks = ticks st + 1, ambulances = ambs', counts_vals = counts',
               amb_frames = frames'\<rparr>"
  from st dp have t: "tick adj nodes target st = Some (Inr ?st')"
    by (simp add: tick_def bind_res_simps)
  from decrement_passed_nth [OF dp] have cl': "length counts' = length (counts_vals st)" by simp
  from decrement_passed_nonneg [OF dp nn] have nn': "\<forall>c \<in> set counts'. 0 \<le> c" .
  from wf cl' nn' have "well_formed adj nodes counts' default_alpha default_beta"
    by (simp add: well_formed_def)
  with tg ok' rg' al fl fr have "run_ok adj nodes target ?st'"
    by (simp add: run_ok_def)
  with t show ?thesis by blast
qed

lemma run_ticks_total:
  "run_ok adj nodes target st \<Longrightarrow>
   \<exists>st'. run_ticks n adj nodes target st = Some (Inr st') \<and> run_ok adj nodes target st'"
proof (induction n arbitrary: st)
  case 0
  then show ?case by simp
next
  case (Suc n)
  show ?case
  proof (cases "list_all amb_done (ambulances st)")
    case True
    with Suc.prems show ?thesis by simp
  next
    case False
    from tick_total [OF Suc.prems] obtain st1 where
      "tick adj nodes target st = Some (Inr st1)" "run_ok adj nodes target st1" by blast
    with Suc.IH [of st1] False show ?thesis by (simp add: bind_res_simps)
  qed
qed

lemma spawn_ambulance_total:
  assumes wf: "well_formed adj nodes counts default_alpha default_beta"
    and tg: "target < length nodes" and si: "si < length nodes"
  shows "\<exists>a. spawn_ambulance adj nodes counts target si = Some (Inr a) \<and>
             amb_ok a \<and> in_range (length nodes) a"
proof -
  from dijkstra_weighted_total [OF wf si tg] obtain r where
    r: "dijkstra_weighted adj nodes counts si target default_alpha default_beta = Some (Inr r)"
    by blast
  show ?thesis
  proof (cases r)
    case None
    with r si tg show ?thesis
      by (simp add: spawn_ambulance_def bind_res_simps amb_ok_def in_range_def)
  next
    case (Some p)
    from dijkstra_weighted_route [OF r [unfolded Some]]
    have "p \<noteq> []" "\<forall>x \<in> set p. x < length nodes" by simp_all
    with r Some show ?thesis
      by (simp add: spawn_ambulance_def bind_res_simps amb_ok_def in_range_def)
  qed
qed

lemma spawn_all_total:
  assumes wf: "well_formed adj nodes counts default_alpha default_beta"
    and tg: "target < length nodes"
  shows "\<forall>si \<in> set spawns. si < length nodes \<Longrightarrow>
         \<exists>ambs. spawn_all adj nodes counts target spawns = Some (Inr ambs) \<and>
                length ambs = length spawns \<and> list_all amb_ok ambs \<and>
                list_all (in_range (length nodes)) ambs"
proof (induction spawns)
  case Nil
  then show ?case by simp
next
  case (Cons si spawns)
  from Cons.prems have si: "si < length nodes" and rest: "\<forall>si \<in> set spawns. si < length nodes"
    by simp_all
  from spawn_ambulance_total [OF wf tg si] obtain a where
    "spawn_ambulance adj nodes counts target si = Some (Inr a)" "amb_ok a"
    "in_range (length nodes) a" by blast
  moreover from Cons.IH [OF rest] obtain ambs where
    "spawn_all adj nodes counts target spawns = Some (Inr ambs)" "length ambs = length spawns"
    "list_all amb_ok ambs" "list_all (in_range (length nodes)) ambs" by blast
  ultimately show ?case by (simp add: bind_res_simps)
qed

lemma run_main_total:
  assumes wf: "well_formed adj nodes counts default_alpha default_beta"
    and tg: "target < length nodes" and sp: "\<forall>si \<in> set spawns. si < length nodes"
    and na: "length spawns \<le> N_AMB"
  shows "\<exists>st. run_main adj nodes counts target spawns = Some (Inr st) \<and>
              run_ok adj nodes target st"
proof -
  from spawn_all_total [OF wf tg sp] obtain ambs where
    a: "spawn_all adj nodes counts target spawns = Some (Inr ambs)" "length ambs = length spawns"
    "list_all amb_ok ambs" "list_all (in_range (length nodes)) ambs" by blast
  let ?st = "\<lparr>ticks = 0, ambulances = ambs, counts_vals = counts,
              amb_frames = replicate N_AMB []\<rparr>"
  from wf tg a na have "run_ok adj nodes target ?st" by (simp add: run_ok_def)
  from run_ticks_total [OF this, of "nat max_ticks"] a(1) show ?thesis
    by (simp add: run_main_def bind_res_simps)
qed

section \<open>Runtime loop: the claims\<close>

text \<open>
  Claim C4. The replanning step of the loop is the stated one: a solve from the current
  junction to the target is made exactly when the tick count is divisible by the interval
  and the cursor is before the last index of the route; a returned route replaces the
  route and resets the cursor to 0, and a failed solve leaves route and cursor as they
  were. In a tick every ambulance that is not done is replanned in this way, on the counts
  held at the start of the tick, and then moved; an ambulance that is done is left as it is.
\<close>

theorem replan_step:
  "replan adj nodes counts target t a = spec_replan adj nodes counts target t a \<and>
   (tick adj nodes target st = Some (Inr st') \<longrightarrow> list_all amb_ok (ambulances st) \<longrightarrow>
      (\<forall>i < length (ambulances st).
         if amb_done (ambulances st ! i) then ambulances st' ! i = ambulances st ! i
         else (\<exists>a1. spec_replan adj nodes (counts_vals st) target (ticks st + 1) (ambulances st ! i)
                       = Some (Inr a1) \<and>
                    ambulances st' ! i = advance a1)))"
proof -
  have "if amb_done (ambulances st ! i) then ambulances st' ! i = ambulances st ! i
         else (\<exists>a1. spec_replan adj nodes (counts_vals st) target (ticks st + 1) (ambulances st ! i)
                       = Some (Inr a1) \<and>
                    ambulances st' ! i = advance a1)"
    if "tick adj nodes target st = Some (Inr st')" "list_all amb_ok (ambulances st)"
      "i < length (ambulances st)" for i
    using tick_ambulances(3,4) [OF that(1,2,3)] by (simp add: replan_spec)
  then show ?thesis by (simp add: replan_spec)
qed

theorem replan_step_witness:
  "tick [0 \<mapsto> [(1, 10)], 1 \<mapsto> [(0, 10), (2, 10), (3, 1)], 2 \<mapsto> [(1, 10)], 3 \<mapsto> [(1, 1)]]
      [(0, 0), (10, 0), (10, 10), (10, 1)] 2
      \<lparr>ticks = 4,
       ambulances = [\<lparr>amb_start = 0, amb_path = [0, 1, 3, 1, 2], amb_pos_idx = 0, amb_done = False\<rparr>,
                     \<lparr>amb_start = 1, amb_path = [1, 2], amb_pos_idx = 1, amb_done = True\<rparr>],
       counts_vals = [3, 2, 0, 0], amb_frames = [[], []]\<rparr>
    = Some (Inr \<lparr>ticks = 5,
       ambulances = [\<lparr>amb_start = 0, amb_path = [0, 1, 2], amb_pos_idx = 1, amb_done = False\<rparr>,
                     \<lparr>amb_start = 1, amb_path = [1, 2], amb_pos_idx = 1, amb_done = True\<rparr>],
       counts_vals = [2, 1, 0, 0], amb_frames = [[41943040], []]\<rparr>) \<and>
   (\<exists>a1. spec_replan [0 \<mapsto> [(1, 10)], 1 \<mapsto> [(0, 10), (2, 10), (3, 1)], 2 \<mapsto> [(1, 10)], 3 \<mapsto> [(1, 1)]]
      [(0, 0), (10, 0), (10, 10), (10, 1)] [3, 2, 0, 0] 2 5
      \<lparr>amb_start = 0, amb_path = [0, 1, 3, 1, 2], amb_pos_idx = 0, amb_done = False\<rparr> = Some (Inr a1) \<and>
      \<lparr>amb_start = 0, amb_path = [0, 1, 2], amb_pos_idx = 1, amb_done = False\<rparr> = advance a1)"
proof -
  let ?adj = "[0 \<mapsto> [(1, 10)], 1 \<mapsto> [(0, 10), (2, 10), (3, 1)], 2 \<mapsto> [(1, 10)], 3 \<mapsto> [(1, 1)]] :: graph"
  let ?nodes = "[(0, 0), (10, 0), (10, 10), (10, 1)] :: (int \<times> int) list"
  let ?st = "\<lparr>ticks = 4,
       ambulances = [\<lparr>amb_start = 0, amb_path = [0, 1, 3, 1, 2], amb_pos_idx = 0, amb_done = False\<rparr>,
                     \<lparr>amb_start = 1, amb_path = [1, 2], amb_pos_idx = 1, amb_done = True\<rparr>],
       counts_vals = [3, 2, 0, 0], amb_frames = [[], []]\<rparr>"
  let ?st' = "\<lparr>ticks = 5,
       ambulances = [\<lparr>amb_start = 0, amb_path = [0, 1, 2], amb_pos_idx = 1, amb_done = False\<rparr>,
                     \<lparr>amb_start = 1, amb_path = [1, 2], amb_pos_idx = 1, amb_done = True\<rparr>],
       counts_vals = [2, 1, 0, 0], amb_frames = [[41943040], []]\<rparr>"
  have t: "tick ?adj ?nodes 2 ?st = Some (Inr ?st')"
    by code_simp
  have ok: "list_all amb_ok (ambulances ?st)"
    by (simp add: amb_ok_def)
  note th = replan_step [where adj = ?adj and nodes = ?nodes and target = 2 and st = ?st
      and st' = ?st', THEN conjunct2, rule_format, OF t ok, of 0]
  have "\<exists>a1. spec_replan ?adj ?nodes [3, 2, 0, 0] 2 5
      \<lparr>amb_start = 0, amb_path = [0, 1, 3, 1, 2], amb_pos_idx = 0, amb_done = False\<rparr> = Some (Inr a1) \<and>
      \<lparr>amb_start = 0, amb_path = [0, 1, 2], amb_pos_idx = 1, amb_done = False\<rparr> = advance a1"
    using th by simp
  with t show ?thesis by blast
qed


text \<open>
  Claim C7. Starting from counts that are all \<open>\<ge> 0\<close>, one decrement, one tick and any
  run of ticks of the multi-ambulance loop leave every count \<open>\<ge> 0\<close>, and a decrement
  at a count of 0 changes nothing; the departures of the stage-0 simulation keep a count
  \<open>\<ge> 0\<close> as well, through any number of its ticks. From a state that satisfies
  \<open>run_ok\<close> the loop does return a state, for any number of ticks.
\<close>

theorem counts_never_negative:
  assumes "\<forall>c \<in> set (counts_vals st). 0 \<le> c" and "list_all (\<lambda>lc. 0 \<le> snd lc) js"
  shows "(\<forall>idx counts'. decrement (counts_vals st) idx = Inr counts' \<longrightarrow>
            (\<forall>c \<in> set counts'. 0 \<le> c) \<and> (counts_vals st ! idx = 0 \<longrightarrow> counts' = counts_vals st)) \<and>
         (\<forall>st'. tick adj nodes target st = Some (Inr st') \<longrightarrow> (\<forall>c \<in> set (counts_vals st'). 0 \<le> c)) \<and>
         (\<forall>n st'. run_ticks n adj nodes target st = Some (Inr st') \<longrightarrow>
            (\<forall>c \<in> set (counts_vals st'). 0 \<le> c)) \<and>
         (\<forall>ph c. 0 \<le> c \<longrightarrow> 0 \<le> depart ph c \<and> (c = 0 \<longrightarrow> depart ph c = 0)) \<and>
         list_all (\<lambda>lc. 0 \<le> snd lc) (stage0_run arrs js) \<and>
         (run_ok adj nodes target st \<longrightarrow>
            (\<forall>n. \<exists>st'. run_ticks n adj nodes target st = Some (Inr st')))"
proof (intro conjI allI impI)
  fix idx counts'
  assume d: "decrement (counts_vals st) idx = Inr counts'"
  from decrement_nonneg [OF d assms(1)] show "\<forall>c \<in> set counts'. 0 \<le> c" by simp
  show "counts' = counts_vals st" if "counts_vals st ! idx = 0"
    using decrement_nonneg [OF d assms(1)] that by simp
next
  fix st'
  assume "tick adj nodes target st = Some (Inr st')"
  from tick_nonneg [OF this assms(1)] show "\<forall>c \<in> set (counts_vals st'). 0 \<le> c" .
next
  fix n st'
  assume "run_ticks n adj nodes target st = Some (Inr st')"
  from run_ticks_nonneg [OF this assms(1)] show "\<forall>c \<in> set (counts_vals st'). 0 \<le> c" .
next
  fix ph c :: int
  assume c: "0 \<le> c"
  from depart_nonneg [OF c] show "0 \<le> depart ph c" by simp
  show "depart ph c = 0" if "c = 0" using depart_nonneg [OF c] that by simp
next
  from stage0_run_counts [OF assms(2)]
  show "list_all (\<lambda>lc. 0 \<le> snd lc) (stage0_run arrs js)" .
next
  fix n
  assume "run_ok adj nodes target st"
  from run_ticks_total [OF this, of n]
  show "\<exists>st'. run_ticks n adj nodes target st = Some (Inr st')" by blast
qed

theorem counts_never_negative_witness:
  "list_all (\<lambda>c. 0 \<le> c) [1, 1, 0 :: int] \<and>
   list_all (\<lambda>lc. 0 \<le> snd lc) [((1 :: int, 5 :: int), 1 :: int)] \<and>
   run_ticks 10 [0 \<mapsto> [(1, 10)], 1 \<mapsto> [(0, 10), (2, 10)], 2 \<mapsto> [(1, 10)]]
      [(0, 0), (10, 0), (10, 10)] 2
      \<lparr>ticks = 0,
       ambulances = [\<lparr>amb_start = 0, amb_path = [0, 1, 2], amb_pos_idx = 0, amb_done = False\<rparr>,
                     \<lparr>amb_start = 1, amb_path = [1, 2], amb_pos_idx = 0, amb_done = False\<rparr>],
       counts_vals = [1, 1, 0], amb_frames = [[], []]\<rparr>
    = Some (Inr \<lparr>ticks = 3,
       ambulances = [\<lparr>amb_start = 0, amb_path = [0, 1, 2], amb_pos_idx = 2, amb_done = True\<rparr>,
                     \<lparr>amb_start = 1, amb_path = [1, 2], amb_pos_idx = 1, amb_done = True\<rparr>],
       counts_vals = [0, 0, 0],
       amb_frames = [[41943040, 41984000, 41984000], [41984000, 41984000]]\<rparr>) \<and>
   list_all (\<lambda>c. 0 \<le> c) (counts_vals \<lparr>ticks = 3,
       ambulances = [\<lparr>amb_start = 0, amb_path = [0, 1, 2], amb_pos_idx = 2, amb_done = True\<rparr>,
                     \<lparr>amb_start = 1, amb_path = [1, 2], amb_pos_idx = 1, amb_done = True\<rparr>],
       counts_vals = [0, 0, 0],
       amb_frames = [[41943040, 41984000, 41984000], [41984000, 41984000]]\<rparr>) \<and>
   decrement [1, 1, 0] 2 = Inr [1, 1, 0] \<and>
   stage0_run [\<lambda>_. False, \<lambda>_. False] [((1, 5), 1)] = [((1, 3), 0)] \<and>
   list_all (\<lambda>lc. 0 \<le> snd lc) (stage0_run [\<lambda>_. False, \<lambda>_. False] [((1, 5), 1)])"
proof -
  let ?adj = "[0 \<mapsto> [(1, 10)], 1 \<mapsto> [(0, 10), (2, 10)], 2 \<mapsto> [(1, 10)]] :: graph"
  let ?nodes = "[(0, 0), (10, 0), (10, 10)] :: (int \<times> int) list"
  let ?st = "\<lparr>ticks = 0,
       ambulances = [\<lparr>amb_start = 0, amb_path = [0, 1, 2], amb_pos_idx = 0, amb_done = False\<rparr>,
                     \<lparr>amb_start = 1, amb_path = [1, 2], amb_pos_idx = 0, amb_done = False\<rparr>],
       counts_vals = [1, 1, 0], amb_frames = [[], []]\<rparr>"
  let ?st' = "\<lparr>ticks = 3,
       ambulances = [\<lparr>amb_start = 0, amb_path = [0, 1, 2], amb_pos_idx = 2, amb_done = True\<rparr>,
                     \<lparr>amb_start = 1, amb_path = [1, 2], amb_pos_idx = 1, amb_done = True\<rparr>],
       counts_vals = [0, 0, 0],
       amb_frames = [[41943040, 41984000, 41984000], [41984000, 41984000]]\<rparr>"
  let ?js = "[((1 :: int, 5 :: int), 1 :: int)]"
  have a: "\<forall>c \<in> set (counts_vals ?st). 0 \<le> c" by simp
  have b: "list_all (\<lambda>lc. 0 \<le> snd lc) ?js" by simp
  have r: "run_ticks 10 ?adj ?nodes 2 ?st = Some (Inr ?st')" by code_simp
  have d: "decrement [1, 1, 0] 2 = Inr [1, 1, 0]" by (simp add: decrement_def)
  have s: "stage0_run [\<lambda>_. False, \<lambda>_. False] ?js = [((1, 3), 0)]"
    by (simp add: stage0_tick_def junction_tick_def light_tick_def depart_def arrive_def
        DEPART_WHEN_GREEN_def base_timings enumerate_eq_zip)
  note th = counts_never_negative [OF a b, of ?adj ?nodes 2 "[\<lambda>_. False, \<lambda>_. False]"]
  from th r have "\<forall>c \<in> set (counts_vals ?st'). 0 \<le> c" by blast
  then have e: "list_all (\<lambda>c. 0 \<le> c) (counts_vals ?st')"
    unfolding list_all_iff .
  from th have f: "list_all (\<lambda>lc. 0 \<le> snd lc) (stage0_run [\<lambda>_. False, \<lambda>_. False] ?js)"
    by blast
  have g: "list_all (\<lambda>c. 0 \<le> c) [1, 1, 0 :: int]" by simp
  from g b r e d s f show ?thesis by (intro conjI)
qed

text \<open>
  Claim C10. A tick decrements for every ambulance, done or not: each count that is
  positive goes down by one for each ambulance whose junction
  \<open>path[max(0, pos_idx - 1)]\<close> it is (not below 0), and every other count is unchanged.
  An ambulance that is done is not changed by the tick nor by the rest of the run, and its
  junction is the second-to-last of its route (the only junction of a one-junction
  route), so it is decremented again in every later tick; from a state that satisfies
  \<open>run_ok\<close> the next tick does return.
\<close>

theorem tick_decrements_passed:
  assumes "tick adj nodes target st = Some (Inr st')" and "list_all amb_ok (ambulances st)"
  shows "length (counts_vals st') = length (counts_vals st) \<and>
         (\<forall>j < length (counts_vals st).
            counts_vals st' ! j =
              (if counts_vals st ! j \<le> 0 then counts_vals st ! j
               else max 0 (counts_vals st ! j
                           - int (count_list (map passed_junction (ambulances st')) j)))) \<and>
         length (ambulances st') = length (ambulances st) \<and>
         list_all amb_ok (ambulances st') \<and>
         (\<forall>i < length (ambulances st). amb_done (ambulances st ! i) \<longrightarrow>
            ambulances st' ! i = ambulances st ! i \<and>
            passed_junction (ambulances st' ! i)
              = amb_path (ambulances st ! i) ! (length (amb_path (ambulances st ! i)) - 2)) \<and>
         (\<forall>n st''. run_ticks n adj nodes target st = Some (Inr st'') \<longrightarrow>
            (\<forall>i < length (ambulances st). amb_done (ambulances st ! i) \<longrightarrow>
               ambulances st'' ! i = ambulances st ! i)) \<and>
         (run_ok adj nodes target st' \<longrightarrow> (\<exists>st2. tick adj nodes target st' = Some (Inr st2)))"
proof -
  from tick_effect [OF assms(1)]
  have d: "decrement_passed (ambulances st') (counts_vals st) = Inr (counts_vals st')"
    by blast
  note ta = tick_ambulances [OF assms]
  have pj: "passed_junction (ambulances st' ! i)
              = amb_path (ambulances st ! i) ! (length (amb_path (ambulances st ! i)) - 2)"
    if "i < length (ambulances st)" "amb_done (ambulances st ! i)" for i
  proof -
    from assms(2) that(1) have "amb_ok (ambulances st ! i)" by (simp add: list_all_length)
    from done_passed_junction [OF this that(2)] ta(3) [OF that] show ?thesis by simp
  qed
  have nx: "\<exists>st2. tick adj nodes target st' = Some (Inr st2)" if "run_ok adj nodes target st'"
    using tick_total [OF that] by blast
  from decrement_passed_nth [OF d] ta(1,2) ta(3) pj run_ticks_done_fixed [OF _ assms(2)] nx
  show ?thesis by blast
qed

theorem tick_decrements_passed_witness:
  "tick [0 \<mapsto> [(1, 10)], 1 \<mapsto> [(0, 10), (2, 10)], 2 \<mapsto> [(1, 10)]]
      [(0, 0), (10, 0), (10, 10)] 2
      \<lparr>ticks = 5,
       ambulances = [\<lparr>amb_start = 0, amb_path = [0, 1, 2], amb_pos_idx = 1, amb_done = False\<rparr>,
                     \<lparr>amb_start = 1, amb_path = [1, 2], amb_pos_idx = 1, amb_done = True\<rparr>],
       counts_vals = [2, 3, 4], amb_frames = [[], []]\<rparr>
    = Some (Inr \<lparr>ticks = 6,
       ambulances = [\<lparr>amb_start = 0, amb_path = [0, 1, 2], amb_pos_idx = 2, amb_done = False\<rparr>,
                     \<lparr>amb_start = 1, amb_path = [1, 2], amb_pos_idx = 1, amb_done = True\<rparr>],
       counts_vals = [2, 1, 4], amb_frames = [[41984000], []]\<rparr>) \<and>
   list_all amb_ok [\<lparr>amb_start = 0, amb_path = [0, 1, 2], amb_pos_idx = 1, amb_done = False\<rparr>,
                    \<lparr>amb_start = 1, amb_path = [1, 2], amb_pos_idx = 1, amb_done = True\<rparr>] \<and>
   passed_junction \<lparr>amb_start = 1, amb_path = [1, 2], amb_pos_idx = 1, amb_done = True\<rparr> = 1 \<and>
   [2, 1, 4 :: int] ! 1 = max 0 (3 - int (count_list [1, 1] (1 :: nat)))"
proof -
  let ?adj = "[0 \<mapsto> [(1, 10)], 1 \<mapsto> [(0, 10), (2, 10)], 2 \<mapsto> [(1, 10)]] :: graph"
  let ?nodes = "[(0, 0), (10, 0), (10, 10)] :: (int \<times> int) list"
  let ?st = "\<lparr>ticks = 5,
       ambulances = [\<lparr>amb_start = 0, amb_path = [0, 1, 2], amb_pos_idx = 1, amb_done = False\<rparr>,
                     \<lparr>amb_start = 1, amb_path = [1, 2], amb_pos_idx = 1, amb_done = True\<rparr>],
       counts_vals = [2, 3, 4], amb_frames = [[], []]\<rparr>"
  let ?st' = "\<lparr>ticks = 6,
       ambulances = [\<lparr>amb_start = 0, amb_path = [0, 1, 2], amb_pos_idx = 2, amb_done = False\<rparr>,
                     \<lparr>amb_start = 1, amb_path = [1, 2], amb_pos_idx = 1, amb_done = True\<rparr>],
       counts_vals = [2, 1, 4], amb_frames = [[41984000], []]\<rparr>"
  have t: "tick ?adj ?nodes 2 ?st = Some (Inr ?st')" by code_simp
  have ok: "list_all amb_ok (ambulances ?st)" by (simp add: amb_ok_def)
  note th = tick_decrements_passed [OF t ok]
  from th have all: "\<forall>i < length (ambulances ?st). amb_done (ambulances ?st ! i) \<longrightarrow>
            ambulances ?st' ! i = ambulances ?st ! i \<and>
            passed_junction (ambulances ?st' ! i)
              = amb_path (ambulances ?st ! i) ! (length (amb_path (ambulances ?st ! i)) - 2)"
    by blast
  from all [rule_format, of "Suc 0"]
  have "passed_junction \<lparr>amb_start = 1, amb_path = [1, 2], amb_pos_idx = 1, amb_done = True\<rparr> = 1"
    by simp
  with t ok show ?thesis by simp
qed

end
